theory Spec2Isabelle
  imports Main "HOL-Library.Multiset"
begin

section \<open>Constants of \<^verbatim>\<open>main.cpp\<close>\<close>

text \<open>
  The program fixes the window and the cell size, and derives the grid dimensions from
  them. The functions below take the two dimensions as arguments \<open>cols\<close> and \<open>rows\<close>;
  the program runs them at \<open>COLS\<close> and \<open>ROWS\<close>. Program integers are 32-bit \<^verbatim>\<open>int\<close>s;
  they are modelled by \<^typ>\<open>int\<close>, without wrap-around. The predicate \<open>dims_ok\<close> bounds the
  grid: an index \<open>y * cols + x\<close> of a cell or of a position one step outside the grid, and
  a cost \<open>g + h\<close> with \<open>g\<close> at most the number of cells, are below \<open>(cols + 1) * (rows + 1)\<close>,
  hence below \<open>INT_MAX\<close>.
\<close>

definition WIDTH :: int where "WIDTH = 1280"
definition HEIGHT :: int where "HEIGHT = 720"
definition CELL_SIZE :: int where "CELL_SIZE = 5"
definition COLS :: int where "COLS = WIDTH div CELL_SIZE"
definition ROWS :: int where "ROWS = HEIGHT div CELL_SIZE"
definition INT_MAX :: int where "INT_MAX = 2147483647"

definition dims_ok :: "int \<Rightarrow> int \<Rightarrow> bool" where
  "dims_ok cols rows = (0 < cols \<and> 0 < rows \<and> (cols + 1) * (rows + 1) < INT_MAX)"

section \<open>Grid model\<close>

text \<open>The four \<^verbatim>\<open>#define\<close>d directions; \<open>dir_num\<close> is the integer the program uses.\<close>

datatype direction = NORTH | SOUTH | WEST | EAST

fun dir_num :: "direction \<Rightarrow> int" where
  "dir_num NORTH = 0"
| "dir_num SOUTH = 1"
| "dir_num WEST = 2"
| "dir_num EAST = 3"

record Segment =
  sx :: int
  sy :: int
  ex :: int
  ey :: int
  exist :: bool

text \<open>
  \<^verbatim>\<open>struct Cell\<close>. The fields \<^verbatim>\<open>x\<close> and \<^verbatim>\<open>y\<close> are named \<open>cell_x\<close> and \<open>cell_y\<close>.
  \<^verbatim>\<open>std::array<Segment, 4>\<close> indexed by a direction is a function from directions.
\<close>

record Cell =
  cell_x :: int
  cell_y :: int
  visited :: bool
  segments :: "direction \<Rightarrow> Segment"

definition Cell_init :: "int \<Rightarrow> int \<Rightarrow> Cell" where
  "Cell_init x y =
     (let rel_x = x * CELL_SIZE; rel_y = y * CELL_SIZE in
      \<lparr> cell_x = x, cell_y = y, visited = False,
        segments = (\<lambda>d. case d of
            NORTH \<Rightarrow> \<lparr> sx = rel_x, sy = rel_y, ex = rel_x + CELL_SIZE, ey = rel_y, exist = True \<rparr>
          | SOUTH \<Rightarrow> \<lparr> sx = rel_x, sy = rel_y + CELL_SIZE, ex = rel_x + CELL_SIZE,
                       ey = rel_y + CELL_SIZE, exist = True \<rparr>
          | WEST \<Rightarrow> \<lparr> sx = rel_x, sy = rel_y, ex = rel_x, ey = rel_y + CELL_SIZE, exist = True \<rparr>
          | EAST \<Rightarrow> \<lparr> sx = rel_x + CELL_SIZE, sy = rel_y, ex = rel_x + CELL_SIZE,
                      ey = rel_y + CELL_SIZE, exist = True \<rparr>) \<rparr>)"

definition remove_wall :: "Cell \<Rightarrow> direction \<Rightarrow> Cell" where
  "remove_wall c d = c\<lparr> segments := (segments c)(d := (segments c d)\<lparr> exist := False \<rparr>) \<rparr>"

text \<open>
  \<^verbatim>\<open>struct Maze\<close>: the vector of cells in row-major order and the state of the random
  generator, of an abstract type \<open>'r\<close>. The field \<open>marks\<close> is not in the program: it logs,
  in order, the cells at which the assignment \<^verbatim>\<open>current.visited = true\<close> was executed,
  and nothing reads it.
\<close>

record 'r Maze =
  maze :: "Cell list"
  rng :: 'r
  marks :: "(int \<times> int) list"

definition Maze_init :: "int \<Rightarrow> int \<Rightarrow> 'r \<Rightarrow> 'r Maze" where
  "Maze_init cols rows r =
     \<lparr> maze = concat (map (\<lambda>y. map (\<lambda>x. Cell_init x y) [0..cols - 1]) [0..rows - 1]),
       rng = r, marks = [] \<rparr>"

datatype error = OutOfBounds | OutOfFuel

text \<open>Reading or writing \<^verbatim>\<open>v[i]\<close> is defined only for \<open>0 \<le> i < v.size()\<close>.\<close>

definition valid_index :: "'a list \<Rightarrow> int \<Rightarrow> bool" where
  "valid_index v i = (0 \<le> i \<and> i < int (length v))"

definition index :: "int \<Rightarrow> int \<Rightarrow> int \<Rightarrow> int" where
  "index cols x y = y * cols + x"

fun opposite :: "direction \<Rightarrow> direction" where
  "opposite dir = (if dir = NORTH then SOUTH else if dir = SOUTH then NORTH
                   else if dir = WEST then EAST else WEST)"

text \<open>The coordinates one step in a direction, as both loops compute them.\<close>

definition next_x :: "int \<Rightarrow> direction \<Rightarrow> int" where
  "next_x x dir = x + of_bool (dir = EAST) - of_bool (dir = WEST)"

definition next_y :: "int \<Rightarrow> direction \<Rightarrow> int" where
  "next_y y dir = y + of_bool (dir = SOUTH) - of_bool (dir = NORTH)"

definition is_walkable :: "int \<Rightarrow> int \<Rightarrow> 'r Maze \<Rightarrow> int \<Rightarrow> int \<Rightarrow> direction \<Rightarrow> error + bool" where
  "is_walkable cols rows m x y dir =
     (if x < 0 \<or> y < 0 \<or> x \<ge> cols \<or> y \<ge> rows then Inr False
      else if \<not> valid_index (maze m) (y * cols + x) then Inl OutOfBounds
      else Inr (\<not> exist (segments (maze m ! nat (y * cols + x)) dir)))"

text \<open>The representation invariant the constructor establishes: one cell per grid position.\<close>

definition wf_maze :: "int \<Rightarrow> int \<Rightarrow> 'r Maze \<Rightarrow> bool" where
  "wf_maze cols rows m = (int (length (maze m)) = cols * rows)"

definition in_bounds :: "int \<Rightarrow> int \<Rightarrow> int \<times> int \<Rightarrow> bool" where
  "in_bounds cols rows c = (0 \<le> fst c \<and> fst c < cols \<and> 0 \<le> snd c \<and> snd c < rows)"

definition cell_at :: "int \<Rightarrow> 'r Maze \<Rightarrow> int \<times> int \<Rightarrow> Cell" where
  "cell_at cols m c = maze m ! nat (index cols (fst c) (snd c))"

section \<open>Maze generation\<close>

definition update_cell :: "'r Maze \<Rightarrow> int \<Rightarrow> (Cell \<Rightarrow> Cell) \<Rightarrow> 'r Maze" where
  "update_cell m i f = m\<lparr> maze := (maze m)[nat i := f (maze m ! nat i)] \<rparr>"

definition mark_visited :: "'r Maze \<Rightarrow> int \<Rightarrow> int \<Rightarrow> int \<Rightarrow> 'r Maze" where
  "mark_visited m i x y =
     (update_cell m i (\<lambda>c. c\<lparr> visited := True \<rparr>))\<lparr> marks := marks m @ [(x, y)] \<rparr>"

text \<open>
  \<^verbatim>\<open>Maze::generate_maze\<close> and its \<^verbatim>\<open>for\<close> loop over the shuffled directions. The first
  argument bounds the depth of the recursion: a call that would exceed it returns
  \<open>OutOfFuel\<close>. \<^verbatim>\<open>std::shuffle\<close> with the generator \<^verbatim>\<open>rng\<close> is the argument \<open>shuffle\<close>,
  which maps the generator state and a list to the shuffled list and the next state.
\<close>

function (sequential) generate_maze ::
    "nat \<Rightarrow> ('r \<Rightarrow> direction list \<Rightarrow> direction list \<times> 'r) \<Rightarrow> int \<Rightarrow> int \<Rightarrow> int \<Rightarrow> int \<Rightarrow>
     'r Maze \<Rightarrow> error + 'r Maze"
and generate_maze_for ::
    "nat \<Rightarrow> ('r \<Rightarrow> direction list \<Rightarrow> direction list \<times> 'r) \<Rightarrow> int \<Rightarrow> int \<Rightarrow> int \<Rightarrow> int \<Rightarrow>
     direction list \<Rightarrow> 'r Maze \<Rightarrow> error + 'r Maze"
where
  "generate_maze 0 shuffle cols rows x y m = Inl OutOfFuel"
| "generate_maze (Suc fuel) shuffle cols rows x y m =
     (if \<not> valid_index (maze m) (y * cols + x) then Inl OutOfBounds
      else
        let m1 = mark_visited m (y * cols + x) x y;
            (directions, r) = shuffle (rng m1) [NORTH, SOUTH, WEST, EAST];
            m2 = m1\<lparr> rng := r \<rparr>
        in generate_maze_for fuel shuffle cols rows x y directions m2)"
| "generate_maze_for fuel shuffle cols rows x y [] m = Inr m"
| "generate_maze_for fuel shuffle cols rows x y (dir # dirs) m =
     (let nx = next_x x dir; ny = next_y y dir in
      if nx \<ge> 0 \<and> nx < cols \<and> ny \<ge> 0 \<and> ny < rows then
        if \<not> valid_index (maze m) (ny * cols + nx) then Inl OutOfBounds
        else if \<not> visited (maze m ! nat (ny * cols + nx)) then
          let m1 = update_cell m (y * cols + x) (\<lambda>c. remove_wall c dir);
              m2 = update_cell m1 (ny * cols + nx) (\<lambda>c. remove_wall c (opposite dir))
          in case generate_maze fuel shuffle cols rows nx ny m2 of
               Inl e \<Rightarrow> Inl e
             | Inr m3 \<Rightarrow> generate_maze_for fuel shuffle cols rows x y dirs m3
        else generate_maze_for fuel shuffle cols rows x y dirs m
      else generate_maze_for fuel shuffle cols rows x y dirs m)"

  by pat_completeness auto
termination
  by (relation "inv_image (less_than <*lex*> less_than)
        (\<lambda>a. case a of Inl (f, s, c, r, x, y, m) \<Rightarrow> (f, 0)
                  | Inr (f, s, c, r, x, y, ds, m) \<Rightarrow> (f, Suc (length ds)))") auto

text \<open>The contract of \<^verbatim>\<open>std::shuffle\<close>: the result is a permutation of the argument.\<close>

definition shuffle_ok :: "('r \<Rightarrow> direction list \<Rightarrow> direction list \<times> 'r) \<Rightarrow> bool" where
  "shuffle_ok shuffle = (\<forall>r ds. mset (fst (shuffle r ds)) = mset ds)"

text \<open>A shuffle for concrete runs: the state is a counter, the list is rotated by it.\<close>

definition rotate_shuffle :: "nat \<Rightarrow> direction list \<Rightarrow> direction list \<times> nat" where
  "rotate_shuffle r ds = (rotate r ds, Suc r)"

section \<open>Adjacency, walks and the heuristic\<close>

definition passable :: "int \<Rightarrow> int \<Rightarrow> 'r Maze \<Rightarrow> int \<times> int \<Rightarrow> direction \<Rightarrow> bool" where
  "passable cols rows m c dir = (is_walkable cols rows m (fst c) (snd c) dir = Inr True)"

definition neighbor :: "int \<times> int \<Rightarrow> direction \<Rightarrow> int \<times> int" where
  "neighbor c dir = (next_x (fst c) dir, next_y (snd c) dir)"

text \<open>\<open>walk cols rows m n a b\<close>: \<open>b\<close> is reached from \<open>a\<close> in exactly \<open>n\<close> passable steps.\<close>

fun walk :: "int \<Rightarrow> int \<Rightarrow> 'r Maze \<Rightarrow> nat \<Rightarrow> int \<times> int \<Rightarrow> int \<times> int \<Rightarrow> bool" where
  "walk cols rows m 0 a b = (a = b)"
| "walk cols rows m (Suc n) a b =
     (\<exists>dir. passable cols rows m a dir \<and> walk cols rows m n (neighbor a dir) b)"

definition reachable :: "int \<Rightarrow> int \<Rightarrow> 'r Maze \<Rightarrow> int \<times> int \<Rightarrow> int \<times> int \<Rightarrow> bool" where
  "reachable cols rows m a b = (\<exists>n. walk cols rows m n a b)"

text \<open>\<open>k\<close> is the shortest-path distance from \<open>a\<close> to \<open>b\<close>.\<close>

definition shortest_dist :: "int \<Rightarrow> int \<Rightarrow> 'r Maze \<Rightarrow> int \<times> int \<Rightarrow> int \<times> int \<Rightarrow> nat \<Rightarrow> bool" where
  "shortest_dist cols rows m a b k =
     (walk cols rows m k a b \<and> (\<forall>n. walk cols rows m n a b \<longrightarrow> k \<le> n))"

definition heuristic :: "int \<Rightarrow> int \<Rightarrow> int \<Rightarrow> int \<Rightarrow> int" where
  "heuristic cols rows x y = abs (cols - 1 - x) + abs (rows - 1 - y)"

section \<open>Pathfinding\<close>

text \<open>\<^verbatim>\<open>struct Node\<close>; its fields \<^verbatim>\<open>x\<close> and \<^verbatim>\<open>y\<close> are named \<open>node_x\<close> and \<open>node_y\<close>.\<close>

record Node =
  node_x :: int
  node_y :: int
  g_cost :: int
  h_cost :: int

definition f_cost :: "Node \<Rightarrow> int" where
  "f_cost n = g_cost n + h_cost n"

text \<open>
  \<^verbatim>\<open>std::priority_queue<Node, std::vector<Node>, std::greater<Node>>\<close> is library code. It is
  an argument of the search: the operations the search calls, on a representation type
  \<open>'q\<close>. \<open>pq_ok\<close> is the contract of the library: the queue holds a multiset of nodes,
  and \<^verbatim>\<open>top()\<close> is an element none is smaller than under \<^verbatim>\<open>operator>\<close>, which compares
  \<open>f_cost\<close>. Which of several smallest elements \<^verbatim>\<open>top()\<close> is, the contract leaves open.
\<close>

record 'q priority_queue =
  pq_new :: 'q
  pq_empty :: "'q \<Rightarrow> bool"
  pq_top :: "'q \<Rightarrow> Node"
  pq_pop :: "'q \<Rightarrow> 'q"
  pq_push :: "Node \<Rightarrow> 'q \<Rightarrow> 'q"

definition pq_spec :: "'q priority_queue \<Rightarrow> ('q \<Rightarrow> Node multiset) \<Rightarrow> bool" where
  "pq_spec P \<alpha> =
     (\<alpha> (pq_new P) = {#} \<and>
      (\<forall>q. pq_empty P q \<longleftrightarrow> \<alpha> q = {#}) \<and>
      (\<forall>q n. \<alpha> (pq_push P n q) = add_mset n (\<alpha> q)) \<and>
      (\<forall>q. \<alpha> q \<noteq> {#} \<longrightarrow>
         pq_top P q \<in># \<alpha> q \<and>
         (\<forall>n \<in># \<alpha> q. f_cost (pq_top P q) \<le> f_cost n) \<and>
         \<alpha> (pq_pop P q) = \<alpha> q - {#pq_top P q#}))"

definition pq_ok :: "'q priority_queue \<Rightarrow> bool" where
  "pq_ok P = (\<exists>\<alpha>. pq_spec P \<alpha>)"

text \<open>A priority queue for concrete runs: a list, of which \<open>top\<close> is the first smallest element.\<close>

fun list_min :: "Node \<Rightarrow> Node list \<Rightarrow> Node" where
  "list_min a [] = a"
| "list_min a (b # q) = list_min (if f_cost b < f_cost a then b else a) q"

definition list_pq :: "Node list priority_queue" where
  "list_pq = \<lparr> pq_new = [], pq_empty = (\<lambda>q. q = []),
               pq_top = (\<lambda>q. list_min (hd q) (tl q)),
               pq_pop = (\<lambda>q. remove1 (list_min (hd q) (tl q)) q),
               pq_push = (\<lambda>n q. q @ [n]) \<rparr>"

text \<open>
  The local variables of \<^verbatim>\<open>a_star\<close>: the vectors \<^verbatim>\<open>g_cost\<close> and \<^verbatim>\<open>visited\<close> are named
  \<open>g_cost_v\<close> and \<open>visited_v\<close>, and the reference \<^verbatim>\<open>Maze& maze\<close> is \<open>maze_ref\<close>. The calls
  to the renderer are left out: they read the state and write none of it.
\<close>

record ('q, 'r) astar_state =
  open_set :: 'q
  came_from :: "int \<rightharpoonup> int \<times> int"
  g_cost_v :: "int list"
  visited_v :: "bool list"
  maze_ref :: "'r Maze"

text \<open>The \<^verbatim>\<open>for\<close> loop over the four directions, lines 141 to 159.\<close>

fun expand ::
    "'q priority_queue \<Rightarrow> int \<Rightarrow> int \<Rightarrow> Node \<Rightarrow> direction list \<Rightarrow> ('q, 'r) astar_state \<Rightarrow>
     error + ('q, 'r) astar_state" where
  "expand P cols rows current [] s = Inr s"
| "expand P cols rows current (dir # dirs) s =
     (let nx = next_x (node_x current) dir; ny = next_y (node_y current) dir in
      case is_walkable cols rows (maze_ref s) (node_x current) (node_y current) dir of
        Inl e \<Rightarrow> Inl e
      | Inr w \<Rightarrow>
          if \<not> w then expand P cols rows current dirs s
          else
            let new_g_cost = g_cost current + 1 in
            if \<not> valid_index (g_cost_v s) (index cols nx ny) then Inl OutOfBounds
            else if new_g_cost < g_cost_v s ! nat (index cols nx ny) then
              expand P cols rows current dirs
                (s\<lparr> g_cost_v := (g_cost_v s)[nat (index cols nx ny) := new_g_cost],
                    came_from := (came_from s)(index cols nx ny \<mapsto> (node_x current, node_y current)),
                    open_set := pq_push P \<lparr> node_x = nx, node_y = ny, g_cost = new_g_cost,
                                            h_cost = heuristic cols rows nx ny \<rparr> (open_set s) \<rparr>)
            else expand P cols rows current dirs s)"

text \<open>The loop of line 134, which follows the back-pointers and collects the cells.\<close>

partial_function (option) reconstruct ::
    "int \<Rightarrow> (int \<rightharpoonup> int \<times> int) \<Rightarrow> int \<times> int \<Rightarrow> (int \<times> int) list \<Rightarrow> (int \<times> int) list option" where
  "reconstruct cols cf at path =
     (case cf (index cols (fst at) (snd at)) of
        None \<Rightarrow> Some path
      | Some prev \<Rightarrow> reconstruct cols cf prev (path @ [at]))"

text \<open>
  One iteration of the \<^verbatim>\<open>while\<close> loop: \<open>Inl\<close> is a \<^verbatim>\<open>return\<close> (or a fault), \<open>Inr\<close> the
  state at the end of the iteration. The value returned is the path and the maze the
  reference points to.
\<close>

definition a_star_step ::
    "'q priority_queue \<Rightarrow> int \<Rightarrow> int \<Rightarrow> ('q, 'r) astar_state \<Rightarrow>
     (error + (int \<times> int) list \<times> 'r Maze) option + ('q, 'r) astar_state" where
  "a_star_step P cols rows s =
     (let current = pq_top P (open_set s);
          s1 = s\<lparr> open_set := pq_pop P (open_set s) \<rparr>;
          i = index cols (node_x current) (node_y current)
      in
        if \<not> valid_index (visited_v s1) i then Inl (Some (Inl OutOfBounds))
        else if visited_v s1 ! nat i then Inr s1
        else
          let s2 = s1\<lparr> visited_v := (visited_v s1)[nat i := True] \<rparr> in
          if node_x current = cols - 1 \<and> node_y current = rows - 1 then
            Inl (map_option (\<lambda>path. Inr (rev (path @ [(0, 0)]), maze_ref s2))
                   (reconstruct cols (came_from s2) (node_x current, node_y current) []))
          else
            case expand P cols rows current [NORTH, SOUTH, WEST, EAST] s2 of
              Inl e \<Rightarrow> Inl (Some (Inl e))
            | Inr s3 \<Rightarrow> Inr s3)"

partial_function (option) a_star_loop ::
    "'q priority_queue \<Rightarrow> int \<Rightarrow> int \<Rightarrow> ('q, 'r) astar_state \<Rightarrow>
     (error + (int \<times> int) list \<times> 'r Maze) option" where
  "a_star_loop P cols rows s =
     (if pq_empty P (open_set s) then Some (Inr ([], maze_ref s))
      else case a_star_step P cols rows s of
             Inl r \<Rightarrow> r
           | Inr s' \<Rightarrow> a_star_loop P cols rows s')"

declare reconstruct.simps [code] a_star_loop.simps [code]

definition a_star_init :: "'q priority_queue \<Rightarrow> int \<Rightarrow> int \<Rightarrow> 'r Maze \<Rightarrow> ('q, 'r) astar_state" where
  "a_star_init P cols rows m =
     \<lparr> open_set = pq_push P \<lparr> node_x = 0, node_y = 0, g_cost = 0, h_cost = heuristic cols rows 0 0 \<rparr>
                    (pq_new P),
       came_from = Map.empty,
       g_cost_v = replicate (nat (cols * rows)) INT_MAX,
       visited_v = replicate (nat (cols * rows)) False,
       maze_ref = m \<rparr>"

text \<open>\<^verbatim>\<open>a_star\<close>: \<open>None\<close> is a run that does not return.\<close>

definition a_star ::
    "'q priority_queue \<Rightarrow> int \<Rightarrow> int \<Rightarrow> 'r Maze \<Rightarrow> (error + (int \<times> int) list \<times> 'r Maze) option" where
  "a_star P cols rows m =
     (let s0 = a_star_init P cols rows m in
      if \<not> valid_index (g_cost_v s0) (index cols 0 0) then Some (Inl OutOfBounds)
      else a_star_loop P cols rows (s0\<lparr> g_cost_v := (g_cost_v s0)[nat (index cols 0 0) := 0] \<rparr>))"

section \<open>Properties of a grid\<close>

definition removed :: "int \<Rightarrow> 'r Maze \<Rightarrow> int \<times> int \<Rightarrow> direction \<Rightarrow> bool" where
  "removed cols m c dir = (\<not> exist (segments (cell_at cols m c) dir))"

definition visited_cells :: "int \<Rightarrow> int \<Rightarrow> 'r Maze \<Rightarrow> (int \<times> int) set" where
  "visited_cells cols rows m = {c. in_bounds cols rows c \<and> visited (cell_at cols m c)}"

definition unvisited_cells :: "int \<Rightarrow> int \<Rightarrow> 'r Maze \<Rightarrow> (int \<times> int) set" where
  "unvisited_cells cols rows m = {c. in_bounds cols rows c \<and> \<not> visited (cell_at cols m c)}"

text \<open>The state in which the constructor leaves the grid.\<close>

definition all_unvisited :: "int \<Rightarrow> int \<Rightarrow> 'r Maze \<Rightarrow> bool" where
  "all_unvisited cols rows m =
     (wf_maze cols rows m \<and> (\<forall>c \<in> set (maze m). \<not> visited c))"

definition all_walls :: "int \<Rightarrow> int \<Rightarrow> 'r Maze \<Rightarrow> bool" where
  "all_walls cols rows m =
     (wf_maze cols rows m \<and> (\<forall>c \<in> set (maze m). \<forall>dir. exist (segments c dir)))"

definition fresh_grid :: "int \<Rightarrow> int \<Rightarrow> 'r Maze \<Rightarrow> bool" where
  "fresh_grid cols rows m = (all_unvisited cols rows m \<and> all_walls cols rows m)"

definition wall_symmetric :: "int \<Rightarrow> int \<Rightarrow> 'r Maze \<Rightarrow> bool" where
  "wall_symmetric cols rows m =
     (\<forall>c dir. in_bounds cols rows c \<and> in_bounds cols rows (neighbor c dir) \<longrightarrow>
        (removed cols m c dir \<longleftrightarrow> removed cols m (neighbor c dir) (opposite dir)))"

definition closed_boundary :: "int \<Rightarrow> int \<Rightarrow> 'r Maze \<Rightarrow> bool" where
  "closed_boundary cols rows m =
     (\<forall>c dir. in_bounds cols rows c \<and> \<not> in_bounds cols rows (neighbor c dir) \<longrightarrow>
        \<not> removed cols m c dir)"

definition adjacent :: "int \<Rightarrow> int \<Rightarrow> 'r Maze \<Rightarrow> int \<times> int \<Rightarrow> int \<times> int \<Rightarrow> bool" where
  "adjacent cols rows m a b = (\<exists>dir. passable cols rows m a dir \<and> neighbor a dir = b)"

text \<open>The removed-wall pairs: the two-element sets of cells with a passage between them.\<close>

definition passages :: "int \<Rightarrow> int \<Rightarrow> 'r Maze \<Rightarrow> (int \<times> int) set set" where
  "passages cols rows m = {{a, b} | a b. adjacent cols rows m a b}"

definition connected_maze :: "int \<Rightarrow> int \<Rightarrow> 'r Maze \<Rightarrow> bool" where
  "connected_maze cols rows m =
     (\<forall>a b. in_bounds cols rows a \<and> in_bounds cols rows b \<longrightarrow> reachable cols rows m a b)"

text \<open>A cycle: at least three distinct cells, each adjacent to the next and the last to the first.\<close>

definition cycle :: "int \<Rightarrow> int \<Rightarrow> 'r Maze \<Rightarrow> (int \<times> int) list \<Rightarrow> bool" where
  "cycle cols rows m p =
     (3 \<le> length p \<and> distinct p \<and>
      (\<forall>i < length p. adjacent cols rows m (p ! i) (p ! (Suc i mod length p))))"

definition acyclic_maze :: "int \<Rightarrow> int \<Rightarrow> 'r Maze \<Rightarrow> bool" where
  "acyclic_maze cols rows m = (\<forall>p. \<not> cycle cols rows m p)"

text \<open>Lines 79 and 80: the wall between \<open>c\<close> and its neighbour is removed on both sides.\<close>

definition carve :: "int \<Rightarrow> 'r Maze \<Rightarrow> int \<times> int \<Rightarrow> direction \<Rightarrow> 'r Maze" where
  "carve cols m c dir =
     update_cell
       (update_cell m (snd c * cols + fst c) (\<lambda>x. remove_wall x dir))
       (snd (neighbor c dir) * cols + fst (neighbor c dir)) (\<lambda>x. remove_wall x (opposite dir))"

definition mark :: "int \<Rightarrow> 'r Maze \<Rightarrow> int \<times> int \<Rightarrow> 'r Maze" where
  "mark cols m c = mark_visited m (snd c * cols + fst c) (fst c) (snd c)"

text \<open>A cell that was never visited still has its four walls.\<close>

definition unvisited_intact :: "int \<Rightarrow> int \<Rightarrow> 'r Maze \<Rightarrow> bool" where
  "unvisited_intact cols rows m =
     (\<forall>c dir. in_bounds cols rows c \<and> \<not> visited (cell_at cols m c) \<longrightarrow> \<not> removed cols m c dir)"

text \<open>
  The invariant of the generator, for the origin \<open>origin\<close> of the outermost call: it holds
  each time a cell has just been marked visited.
\<close>

definition gen_inv :: "int \<Rightarrow> int \<Rightarrow> int \<times> int \<Rightarrow> 'r Maze \<Rightarrow> bool" where
  "gen_inv cols rows origin m =
     (wf_maze cols rows m \<and> wall_symmetric cols rows m \<and> closed_boundary cols rows m \<and>
      unvisited_intact cols rows m \<and>
      origin \<in> visited_cells cols rows m \<and>
      (\<forall>c \<in> visited_cells cols rows m. reachable cols rows m origin c) \<and>
      acyclic_maze cols rows m \<and>
      finite (passages cols rows m) \<and>
      Suc (card (passages cols rows m)) = card (visited_cells cols rows m))"

text \<open>
  The invariant of the log: what the run has appended to the log \<open>base\<close> it started with
  holds the visited cells, each once.
\<close>

definition visit_inv :: "int \<Rightarrow> int \<Rightarrow> (int \<times> int) list \<Rightarrow> 'r Maze \<Rightarrow> bool" where
  "visit_inv cols rows base m =
     (wf_maze cols rows m \<and>
      (\<exists>log. marks m = base @ log \<and> distinct log \<and> set log = visited_cells cols rows m))"

text \<open>
  What a call of the generator achieves, relative to the set \<open>V0\<close> of cells visited before
  it: no visited flag is cleared, and every newly visited cell has all its neighbours
  inside the grid visited.
\<close>

definition gen_post :: "int \<Rightarrow> int \<Rightarrow> (int \<times> int) set \<Rightarrow> 'r Maze \<Rightarrow> bool" where
  "gen_post cols rows V0 m =
     (V0 \<subseteq> visited_cells cols rows m \<and>
      (\<forall>c \<in> visited_cells cols rows m - V0. \<forall>dir.
         in_bounds cols rows (neighbor c dir) \<longrightarrow> neighbor c dir \<in> visited_cells cols rows m))"

section \<open>The invariant of the search\<close>

definition node_pos :: "Node \<Rightarrow> int \<times> int" where
  "node_pos n = (node_x n, node_y n)"

definition g_at :: "int \<Rightarrow> ('q, 'r) astar_state \<Rightarrow> int \<times> int \<Rightarrow> int" where
  "g_at cols s c = g_cost_v s ! nat (index cols (fst c) (snd c))"

definition closed_at :: "int \<Rightarrow> ('q, 'r) astar_state \<Rightarrow> int \<times> int \<Rightarrow> bool" where
  "closed_at cols s c = visited_v s ! nat (index cols (fst c) (snd c))"

definition closed_cells :: "int \<Rightarrow> int \<Rightarrow> ('q, 'r) astar_state \<Rightarrow> (int \<times> int) set" where
  "closed_cells cols rows s = {c. in_bounds cols rows c \<and> closed_at cols s c}"

definition goal :: "int \<Rightarrow> int \<Rightarrow> int \<times> int" where
  "goal cols rows = (cols - 1, rows - 1)"

text \<open>The vectors have one entry per cell and the reference still points to the maze \<open>m\<close>.\<close>

definition inv_shape :: "int \<Rightarrow> int \<Rightarrow> 'r Maze \<Rightarrow> ('q, 'r) astar_state \<Rightarrow> bool" where
  "inv_shape cols rows m s =
     (length (g_cost_v s) = nat (cols * rows) \<and> length (visited_v s) = nat (cols * rows) \<and>
      maze_ref s = m)"

text \<open>Every node in the frontier stands for a walk from the start of its \<open>g_cost\<close> steps.\<close>

definition inv_queue ::
    "('q \<Rightarrow> Node multiset) \<Rightarrow> int \<Rightarrow> int \<Rightarrow> 'r Maze \<Rightarrow> ('q, 'r) astar_state \<Rightarrow> bool" where
  "inv_queue \<alpha> cols rows m s =
     (\<forall>n \<in># \<alpha> (open_set s).
        in_bounds cols rows (node_pos n) \<and>
        h_cost n = heuristic cols rows (node_x n) (node_y n) \<and>
        0 \<le> g_cost n \<and> walk cols rows m (nat (g_cost n)) (0, 0) (node_pos n) \<and>
        g_at cols s (node_pos n) \<le> g_cost n \<and>
        g_cost n \<le> int (card (closed_cells cols rows s)))"

text \<open>A recorded cost below \<open>INT_MAX\<close> is the length of a walk from the start.\<close>

definition inv_g :: "int \<Rightarrow> int \<Rightarrow> 'r Maze \<Rightarrow> ('q, 'r) astar_state \<Rightarrow> bool" where
  "inv_g cols rows m s =
     (g_at cols s (0, 0) = 0 \<and> came_from s 0 = None \<and>
      (\<forall>c. in_bounds cols rows c \<longrightarrow>
         0 \<le> g_at cols s c \<and> g_at cols s c \<le> INT_MAX \<and>
         (g_at cols s c < INT_MAX \<longrightarrow>
            walk cols rows m (nat (g_at cols s c)) (0, 0) c \<and>
            g_at cols s c \<le> int (card (closed_cells cols rows s)))))"

text \<open>
  A back-pointer leads from a cell to a closed cell one step nearer to the start; the
  cells other than the start that have none are those not reached yet.
\<close>

definition inv_back :: "int \<Rightarrow> int \<Rightarrow> 'r Maze \<Rightarrow> ('q, 'r) astar_state \<Rightarrow> bool" where
  "inv_back cols rows m s =
     (\<forall>c. in_bounds cols rows c \<longrightarrow>
        (case came_from s (index cols (fst c) (snd c)) of
           None \<Rightarrow> c \<noteq> (0, 0) \<longrightarrow> g_at cols s c = INT_MAX
         | Some p \<Rightarrow> in_bounds cols rows p \<and> closed_at cols s p \<and> adjacent cols rows m p c \<and>
                     g_at cols s c = g_at cols s p + 1 \<and> g_at cols s c < INT_MAX))"

text \<open>A reached cell that is not closed has a node in the frontier with its recorded cost.\<close>

definition inv_open ::
    "('q \<Rightarrow> Node multiset) \<Rightarrow> int \<Rightarrow> int \<Rightarrow> ('q, 'r) astar_state \<Rightarrow> bool" where
  "inv_open \<alpha> cols rows s =
     (\<forall>c. in_bounds cols rows c \<and> \<not> closed_at cols s c \<and> g_at cols s c < INT_MAX \<longrightarrow>
        (\<exists>n \<in># \<alpha> (open_set s). node_pos n = c \<and> g_cost n = g_at cols s c))"

text \<open>
  The recorded cost of a closed cell is the shortest distance from the start, and its
  passable neighbours are recorded at most one step farther, except for the pairs of a
  cell and a direction in \<open>exc\<close>: those the running expansion has not reached yet.
\<close>

definition inv_closed ::
    "int \<Rightarrow> int \<Rightarrow> 'r Maze \<Rightarrow> ((int \<times> int) \<times> direction) set \<Rightarrow> ('q, 'r) astar_state \<Rightarrow> bool" where
  "inv_closed cols rows m exc s =
     (\<forall>c. in_bounds cols rows c \<and> closed_at cols s c \<longrightarrow>
        g_at cols s c < INT_MAX \<and>
        (\<forall>k. walk cols rows m k (0, 0) c \<longrightarrow> g_at cols s c \<le> int k) \<and>
        (\<forall>dir. passable cols rows m c dir \<and> (c, dir) \<notin> exc \<longrightarrow>
           g_at cols s (neighbor c dir) \<le> g_at cols s c + 1))"

definition astar_inv ::
    "('q \<Rightarrow> Node multiset) \<Rightarrow> int \<Rightarrow> int \<Rightarrow> 'r Maze \<Rightarrow> ((int \<times> int) \<times> direction) set \<Rightarrow>
     ('q, 'r) astar_state \<Rightarrow> bool" where
  "astar_inv \<alpha> cols rows m exc s =
     (inv_shape cols rows m s \<and> inv_queue \<alpha> cols rows m s \<and> inv_g cols rows m s \<and>
      inv_back cols rows m s \<and> inv_open \<alpha> cols rows s \<and> inv_closed cols rows m exc s)"

text \<open>The quantity that every iteration of the \<^verbatim>\<open>while\<close> loop decreases.\<close>

definition astar_measure :: "('q \<Rightarrow> Node multiset) \<Rightarrow> ('q, 'r) astar_state \<Rightarrow> nat" where
  "astar_measure \<alpha> s = 2 * sum_list (map nat (g_cost_v s)) + size (\<alpha> (open_set s))"

text \<open>The steps of a path, each from a cell to an adjacent one.\<close>

fun path_steps :: "int \<Rightarrow> int \<Rightarrow> 'r Maze \<Rightarrow> (int \<times> int) list \<Rightarrow> bool" where
  "path_steps cols rows m (a # b # p) = (adjacent cols rows m a b \<and> path_steps cols rows m (b # p))"
| "path_steps cols rows m p = True"

text \<open>What the search returns when it finds the goal: a shortest path of adjacent cells.\<close>

definition found_path :: "int \<Rightarrow> int \<Rightarrow> 'r Maze \<Rightarrow> (int \<times> int) list \<Rightarrow> bool" where
  "found_path cols rows m path =
     (path \<noteq> [] \<and> hd path = (0, 0) \<and> last path = goal cols rows \<and>
      path_steps cols rows m path \<and> distinct path \<and>
      shortest_dist cols rows m (0, 0) (goal cols rows) (length path - 1))"

definition search_result ::
    "int \<Rightarrow> int \<Rightarrow> 'r Maze \<Rightarrow> error + (int \<times> int) list \<times> 'r Maze \<Rightarrow> bool" where
  "search_result cols rows m r =
     (\<exists>path. r = Inr (path, m) \<and>
        (if reachable cols rows m (0, 0) (goal cols rows) then found_path cols rows m path
         else path = []))"

text \<open>
  A carved grid: a grid with all its walls in which passages have been carved as lines 79
  and 80 carve them, each between two cells of the grid and on both of its sides. Marking
  cells and running the random generator leave a carved grid carved.
\<close>

inductive carved :: "int \<Rightarrow> int \<Rightarrow> 'r Maze \<Rightarrow> bool" for cols rows where
  carved_walls: "all_walls cols rows m \<Longrightarrow> carved cols rows m"
| carved_carve: "carved cols rows m \<Longrightarrow> in_bounds cols rows c \<Longrightarrow>
    in_bounds cols rows (neighbor c dir) \<Longrightarrow> carved cols rows (carve cols m c dir)"
| carved_mark: "carved cols rows m \<Longrightarrow> in_bounds cols rows c \<Longrightarrow> carved cols rows (mark cols m c)"
| carved_rng: "carved cols rows m \<Longrightarrow> carved cols rows (m\<lparr> rng := r \<rparr>)"

text \<open>An enclosed grid: one cell per position, and no wall of the outer boundary removed.\<close>

definition enclosed_grid :: "int \<Rightarrow> int \<Rightarrow> 'r Maze \<Rightarrow> bool" where
  "enclosed_grid cols rows m = (wf_maze cols rows m \<and> closed_boundary cols rows m)"

section \<open>Concrete grids\<close>

text \<open>A two-by-two grid with the single passage between \<open>(0,0)\<close> and \<open>(1,0)\<close>.\<close>

definition one_passage :: "nat Maze" where
  "one_passage = carve 2 (Maze_init 2 2 0) (0, 0) EAST"

text \<open>A grid of two cells in a row, with the passage between them.\<close>

definition corridor :: "nat Maze" where
  "corridor = carve 2 (Maze_init 2 1 0) (0, 0) EAST"

text \<open>The same grid with the wall removed on the side of \<open>(0,0)\<close> only.\<close>

definition one_way :: "nat Maze" where
  "one_way = update_cell (Maze_init 2 1 0) 0 (\<lambda>c. remove_wall c EAST)"

text \<open>The grid of two cells with all its walls but the north wall of \<open>(0,0)\<close>.\<close>

definition north_breach :: "nat Maze" where
  "north_breach = update_cell (Maze_init 2 1 0) 0 (\<lambda>c. remove_wall c NORTH)"

section \<open>Basic facts\<close>

lemma dims_ok_program: "dims_ok COLS ROWS"
  by (simp add: dims_ok_def COLS_def ROWS_def WIDTH_def HEIGHT_def CELL_SIZE_def INT_MAX_def)

lemma direction_ex: "(\<exists>d. P d) = (P NORTH \<or> P SOUTH \<or> P WEST \<or> P EAST)"
proof
  assume "\<exists>d. P d"
  then obtain d where "P d" ..
  then show "P NORTH \<or> P SOUTH \<or> P WEST \<or> P EAST" by (cases d) auto
qed auto

lemma direction_all: "(\<forall>d. P d) = (P NORTH \<and> P SOUTH \<and> P WEST \<and> P EAST)"
proof
  assume r: "P NORTH \<and> P SOUTH \<and> P WEST \<and> P EAST"
  show "\<forall>d. P d"
  proof
    fix d show "P d" using r by (cases d) auto
  qed
qed auto

lemma heuristic_step:
  "heuristic cols rows (fst c) (snd c)
     \<le> 1 + heuristic cols rows (fst (neighbor c dir)) (snd (neighbor c dir))"
  by (cases dir) (simp_all add: heuristic_def neighbor_def next_x_def next_y_def)

lemma heuristic_walk:
  "walk cols rows m n a b \<Longrightarrow>
   heuristic cols rows (fst a) (snd a) \<le> int n + heuristic cols rows (fst b) (snd b)"
proof (induction n arbitrary: a)
  case 0
  then show ?case by simp
next
  case (Suc n)
  then obtain dir where w: "walk cols rows m n (neighbor a dir) b" by auto
  from Suc.IH [OF w] heuristic_step [of cols rows a dir] show ?case by simp
qed

lemma index_in_range:
  assumes "in_bounds cols rows c"
  shows "0 \<le> index cols (fst c) (snd c)" and "index cols (fst c) (snd c) < cols * rows"
proof -
  from assms have b: "0 \<le> fst c" "fst c < cols" "0 \<le> snd c" "snd c < rows"
    by (simp_all add: in_bounds_def)
  show "0 \<le> index cols (fst c) (snd c)" using b by (simp add: index_def)
  have "snd c + 1 \<le> rows" using b by simp
  then have "(snd c + 1) * cols \<le> rows * cols" using b by (intro mult_right_mono) auto
  then show "index cols (fst c) (snd c) < cols * rows"
    using b by (simp add: index_def algebra_simps)
qed

section \<open>Cells and their indices\<close>

lemma index_inj:
  assumes "in_bounds cols rows a" "in_bounds cols rows b"
    and "index cols (fst a) (snd a) = index cols (fst b) (snd b)"
  shows "a = b"
proof -
  from assms have b: "0 \<le> fst a" "fst a < cols" "0 \<le> fst b" "fst b < cols"
    by (simp_all add: in_bounds_def)
  from assms(3) have e: "snd a * cols + fst a = snd b * cols + fst b"
    by (simp add: index_def)
  have "(snd a * cols + fst a) div cols = snd a" using b by simp
  moreover have "(snd b * cols + fst b) div cols = snd b" using b by simp
  ultimately have "snd a = snd b" using e by simp
  with e have "fst a = fst b" by simp
  with \<open>snd a = snd b\<close> show ?thesis by (simp add: prod_eq_iff)
qed

lemma valid_index_cell:
  "wf_maze cols rows m \<Longrightarrow> in_bounds cols rows c \<Longrightarrow>
   valid_index (maze m) (snd c * cols + fst c)"
  using index_in_range [of cols rows c] by (simp add: valid_index_def wf_maze_def index_def)

lemma nat_index_eq:
  assumes "in_bounds cols rows a" "in_bounds cols rows b"
  shows "nat (snd a * cols + fst a) = nat (snd b * cols + fst b) \<longleftrightarrow> a = b"
proof
  assume "nat (snd a * cols + fst a) = nat (snd b * cols + fst b)"
  moreover have "0 \<le> snd a * cols + fst a" "0 \<le> snd b * cols + fst b"
    using index_in_range(1) [OF assms(1)] index_in_range(1) [OF assms(2)]
    by (simp_all add: index_def)
  ultimately have "index cols (fst a) (snd a) = index cols (fst b) (snd b)"
    by (simp add: index_def)
  then show "a = b" by (rule index_inj [OF assms])
qed simp

lemma wf_update_cell [simp]: "wf_maze cols rows (update_cell m i f) = wf_maze cols rows m"
  by (simp add: wf_maze_def update_cell_def)

lemma cell_at_update_cell:
  assumes "wf_maze cols rows m" "in_bounds cols rows a" "in_bounds cols rows c"
  shows "cell_at cols (update_cell m (snd a * cols + fst a) f) c
           = (if c = a then f (cell_at cols m c) else cell_at cols m c)"
proof -
  have lt: "nat (snd a * cols + fst a) < length (maze m)"
    using valid_index_cell [OF assms(1,2)] by (auto simp: valid_index_def nat_less_iff)
  show ?thesis
    using lt nat_index_eq [OF assms(2,3)]
    by (auto simp: cell_at_def update_cell_def index_def)
qed

declare opposite.simps [simp del]

lemma opposite_cases [simp]:
  "opposite NORTH = SOUTH" "opposite SOUTH = NORTH" "opposite WEST = EAST" "opposite EAST = WEST"
  by (simp_all add: opposite.simps)

lemma neighbor_neq [simp]: "neighbor c dir \<noteq> c" "c \<noteq> neighbor c dir"
  by (cases dir; simp add: neighbor_def next_x_def next_y_def prod_eq_iff)+

lemma neighbor_opposite [simp]: "neighbor (neighbor c dir) (opposite dir) = c"
  by (cases dir) (simp_all add: neighbor_def next_x_def next_y_def)

lemma opposite_opposite [simp]: "opposite (opposite dir) = dir"
  by (cases dir) simp_all

lemma neighbor_inj: "neighbor c d = neighbor c e \<Longrightarrow> d = e"
  by (cases d; cases e; simp add: neighbor_def next_x_def next_y_def)

lemma neighbor_back: "neighbor a e = c \<Longrightarrow> neighbor c d = a \<Longrightarrow> e = opposite d"
  by (cases d; cases e; auto simp: neighbor_def next_x_def next_y_def prod_eq_iff)

lemma wf_carve [simp]: "wf_maze cols rows (carve cols m c dir) = wf_maze cols rows m"
  by (simp add: carve_def)

lemma wf_mark [simp]: "wf_maze cols rows (mark cols m c) = wf_maze cols rows m"
  by (simp add: mark_def mark_visited_def wf_maze_def update_cell_def)

lemma cell_at_carve:
  assumes "wf_maze cols rows m" "in_bounds cols rows c" "in_bounds cols rows (neighbor c dir)"
    and "in_bounds cols rows a"
  shows "cell_at cols (carve cols m c dir) a
           = (if a = c then remove_wall (cell_at cols m a) dir
              else if a = neighbor c dir then remove_wall (cell_at cols m a) (opposite dir)
              else cell_at cols m a)"
  using assms by (simp add: carve_def cell_at_update_cell)

lemma cell_at_mark:
  assumes "wf_maze cols rows m" "in_bounds cols rows c" "in_bounds cols rows a"
  shows "cell_at cols (mark cols m c) a
           = (if a = c then (cell_at cols m a)\<lparr> visited := True \<rparr> else cell_at cols m a)"
proof -
  have "cell_at cols (mark cols m c) a
          = cell_at cols (update_cell m (snd c * cols + fst c) (\<lambda>c. c\<lparr> visited := True \<rparr>)) a"
    by (simp add: mark_def mark_visited_def cell_at_def)
  then show ?thesis using assms by (simp add: cell_at_update_cell)
qed

lemma removed_carve:
  assumes "wf_maze cols rows m" "in_bounds cols rows c" "in_bounds cols rows (neighbor c dir)"
    and "in_bounds cols rows a"
  shows "removed cols (carve cols m c dir) a e \<longleftrightarrow>
           removed cols m a e \<or> (a = c \<and> e = dir) \<or> (a = neighbor c dir \<and> e = opposite dir)"
proof -
  have n: "neighbor c dir \<noteq> c" by simp
  show ?thesis
    unfolding removed_def cell_at_carve [OF assms]
    using n by (simp add: remove_wall_def)
qed

lemma visited_carve:
  assumes "wf_maze cols rows m" "in_bounds cols rows c" "in_bounds cols rows (neighbor c dir)"
    and "in_bounds cols rows a"
  shows "visited (cell_at cols (carve cols m c dir) a) = visited (cell_at cols m a)"
  using assms by (simp add: cell_at_carve remove_wall_def)

lemma removed_mark:
  assumes "wf_maze cols rows m" "in_bounds cols rows c" "in_bounds cols rows a"
  shows "removed cols (mark cols m c) a e = removed cols m a e"
  using assms by (simp add: removed_def cell_at_mark)

lemma visited_mark:
  assumes "wf_maze cols rows m" "in_bounds cols rows c" "in_bounds cols rows a"
  shows "visited (cell_at cols (mark cols m c) a) \<longleftrightarrow> visited (cell_at cols m a) \<or> a = c"
  using assms by (simp add: cell_at_mark)

lemma passable_iff:
  assumes "wf_maze cols rows m"
  shows "passable cols rows m c dir \<longleftrightarrow> in_bounds cols rows c \<and> removed cols m c dir"
proof (cases "in_bounds cols rows c")
  case True
  with assms have "valid_index (maze m) (snd c * cols + fst c)" by (rule valid_index_cell)
  with True show ?thesis
    by (auto simp: passable_def is_walkable_def in_bounds_def removed_def cell_at_def index_def)
next
  case False
  then show ?thesis by (auto simp: passable_def is_walkable_def in_bounds_def)
qed

lemma finite_in_bounds: "finite {c. in_bounds cols rows c}"
proof -
  have "{c. in_bounds cols rows c} \<subseteq> {0..<cols} \<times> {0..<rows}"
    by (auto simp: in_bounds_def)
  then show ?thesis by (rule finite_subset) simp
qed

lemma card_in_bounds: "card {c. in_bounds cols rows c} = nat cols * nat rows"
proof -
  have "{c. in_bounds cols rows c} = {0..<cols} \<times> {0..<rows}"
    by (auto simp: in_bounds_def)
  then show ?thesis by (simp add: card_cartesian_product)
qed

lemma length_Maze_init: "length (maze (Maze_init cols rows r)) = nat rows * nat cols"
  by (simp add: Maze_init_def length_concat comp_def sum_list_triv)

lemma fresh_grid_Maze_init:
  "0 \<le> cols \<Longrightarrow> 0 \<le> rows \<Longrightarrow> fresh_grid cols rows (Maze_init cols rows r)"
  by (auto simp: fresh_grid_def all_unvisited_def all_walls_def wf_maze_def length_Maze_init
        nat_mult_distrib mult.commute)
     (auto simp: Maze_init_def Cell_init_def Let_def split: direction.splits)

section \<open>Walks\<close>

lemma walk_step: "adjacent cols rows m a b \<Longrightarrow> walk cols rows m n b c \<Longrightarrow> walk cols rows m (Suc n) a c"
  by (auto simp: adjacent_def)

lemma walk_snoc:
  "walk cols rows m n a b \<Longrightarrow> adjacent cols rows m b c \<Longrightarrow> walk cols rows m (Suc n) a c"
proof (induction n arbitrary: a)
  case 0
  then show ?case by (auto simp: adjacent_def)
next
  case (Suc n)
  from Suc.prems(1) obtain dir where d: "passable cols rows m a dir"
    and w: "walk cols rows m n (neighbor a dir) b" by auto
  from Suc.IH [OF w Suc.prems(2)] d show ?case by auto
qed

lemma walk_last:
  "walk cols rows m (Suc n) a c \<Longrightarrow> \<exists>b. walk cols rows m n a b \<and> adjacent cols rows m b c"
proof (induction n arbitrary: a)
  case 0
  then show ?case by (auto simp: adjacent_def)
next
  case (Suc n)
  from Suc.prems obtain dir where d: "passable cols rows m a dir"
    and w: "walk cols rows m (Suc n) (neighbor a dir) c" by auto
  from Suc.IH [OF w] obtain b where b: "walk cols rows m n (neighbor a dir) b"
    and a: "adjacent cols rows m b c" by blast
  from d b have "walk cols rows m (Suc n) a b" by auto
  with a show ?case by blast
qed

lemma walk_mono:
  assumes "\<And>a dir. passable cols rows m a dir \<Longrightarrow> passable cols rows m' a dir"
  shows "walk cols rows m n a b \<Longrightarrow> walk cols rows m' n a b"
proof (induction n arbitrary: a)
  case 0
  then show ?case by simp
next
  case (Suc n)
  then obtain dir where d: "passable cols rows m a dir"
    and w: "walk cols rows m n (neighbor a dir) b" by auto
  from Suc.IH [OF w] assms [OF d] show ?case by auto
qed

lemma reachable_refl: "reachable cols rows m a a"
  unfolding reachable_def by (rule exI [of _ 0]) simp

lemma reachable_snoc:
  "reachable cols rows m a b \<Longrightarrow> adjacent cols rows m b c \<Longrightarrow> reachable cols rows m a c"
  unfolding reachable_def by (blast intro: walk_snoc)

lemma reachable_step:
  "adjacent cols rows m a b \<Longrightarrow> reachable cols rows m b c \<Longrightarrow> reachable cols rows m a c"
  unfolding reachable_def by (blast intro: walk_step)

lemma reachable_trans:
  assumes "reachable cols rows m a b" "reachable cols rows m b c"
  shows "reachable cols rows m a c"
proof -
  from assms(2) obtain n where "walk cols rows m n b c" by (auto simp: reachable_def)
  then show ?thesis using assms(1)
  proof (induction n arbitrary: c)
    case 0
    then show ?case by simp
  next
    case (Suc n)
    from walk_last [OF Suc.prems(1)] obtain x where x: "walk cols rows m n b x"
      and a: "adjacent cols rows m x c" by blast
    from Suc.IH [OF x Suc.prems(2)] a show ?case by (rule reachable_snoc)
  qed
qed

lemma reachable_mono:
  assumes "\<And>a dir. passable cols rows m a dir \<Longrightarrow> passable cols rows m' a dir"
  shows "reachable cols rows m a b \<Longrightarrow> reachable cols rows m' a b"
  unfolding reachable_def using walk_mono [of cols rows m m', OF assms] by blast

section \<open>One step of the generator\<close>

lemma opposite_eq_iff [simp]: "opposite e = opposite d \<longleftrightarrow> e = d"
  by (cases e; cases d) simp_all

lemma opposite_eq_swap: "opposite e = d \<longleftrightarrow> e = opposite d"
  by (cases e; cases d) simp_all

lemma neighbor_eq_iff [simp]: "neighbor a d = neighbor c d \<longleftrightarrow> a = c"
  by (cases d) (auto simp: neighbor_def next_x_def next_y_def prod_eq_iff)

lemma neighbor_eq_D: "neighbor a e = neighbor c d \<Longrightarrow> opposite e = opposite d \<Longrightarrow> a = c"
  by simp

lemma marks_carve [simp]: "marks (carve cols m c dir) = marks m"
  by (simp add: carve_def update_cell_def)

lemma marks_mark [simp]: "marks (mark cols m c) = marks m @ [c]"
  by (simp add: mark_def mark_visited_def)

lemma removed_step:
  assumes "wf_maze cols rows m" "in_bounds cols rows c" "in_bounds cols rows (neighbor c dir)"
    and "in_bounds cols rows a"
  shows "removed cols (mark cols (carve cols m c dir) (neighbor c dir)) a e \<longleftrightarrow>
           removed cols m a e \<or> (a = c \<and> e = dir) \<or> (a = neighbor c dir \<and> e = opposite dir)"
  using assms by (simp add: removed_mark removed_carve)

lemma visited_step:
  assumes "wf_maze cols rows m" "in_bounds cols rows c" "in_bounds cols rows (neighbor c dir)"
    and "in_bounds cols rows a"
  shows "visited (cell_at cols (mark cols (carve cols m c dir) (neighbor c dir)) a) \<longleftrightarrow>
           visited (cell_at cols m a) \<or> a = neighbor c dir"
  using assms by (simp add: visited_mark visited_carve)

lemma visited_cells_step:
  assumes "wf_maze cols rows m" "in_bounds cols rows c" "in_bounds cols rows (neighbor c dir)"
  shows "visited_cells cols rows (mark cols (carve cols m c dir) (neighbor c dir))
           = insert (neighbor c dir) (visited_cells cols rows m)"
  using assms by (auto simp: visited_cells_def visited_step)

lemma passable_step:
  assumes "wf_maze cols rows m" "in_bounds cols rows c" "in_bounds cols rows (neighbor c dir)"
  shows "passable cols rows (mark cols (carve cols m c dir) (neighbor c dir)) a e \<longleftrightarrow>
           passable cols rows m a e \<or> (a = c \<and> e = dir) \<or> (a = neighbor c dir \<and> e = opposite dir)"
proof (cases "in_bounds cols rows a")
  case True
  with assms show ?thesis by (simp add: passable_iff removed_step)
next
  case False
  with assms show ?thesis by (auto simp: passable_iff)
qed

lemma adjacent_step:
  assumes "wf_maze cols rows m" "in_bounds cols rows c" "in_bounds cols rows (neighbor c dir)"
  shows "adjacent cols rows (mark cols (carve cols m c dir) (neighbor c dir)) a b \<longleftrightarrow>
           adjacent cols rows m a b \<or> (a = c \<and> b = neighbor c dir) \<or> (a = neighbor c dir \<and> b = c)"
  unfolding adjacent_def passable_step [OF assms] by auto

lemma unvisited_intactD:
  "unvisited_intact cols rows m \<Longrightarrow> in_bounds cols rows c \<Longrightarrow> \<not> visited (cell_at cols m c) \<Longrightarrow>
   \<not> removed cols m c dir"
  unfolding unvisited_intact_def by blast

lemma unvisited_isolated:
  assumes wf: "wf_maze cols rows m" and sym: "wall_symmetric cols rows m"
    and fresh: "unvisited_intact cols rows m"
    and n: "in_bounds cols rows n" "\<not> visited (cell_at cols m n)"
  shows "\<not> adjacent cols rows m n a" and "\<not> adjacent cols rows m a n"
proof -
  show "\<not> adjacent cols rows m n a"
    using unvisited_intactD [OF fresh n] by (auto simp: adjacent_def passable_iff [OF wf])
  show "\<not> adjacent cols rows m a n"
  proof
    assume "adjacent cols rows m a n"
    then obtain e where e: "in_bounds cols rows a" "removed cols m a e" "neighbor a e = n"
      by (auto simp: adjacent_def passable_iff [OF wf])
    with sym n(1) have "removed cols m n (opposite e)"
      unfolding wall_symmetric_def by blast
    with unvisited_intactD [OF fresh n] show False by blast
  qed
qed

lemma wall_symmetric_step:
  assumes "wf_maze cols rows m" "in_bounds cols rows c" "in_bounds cols rows (neighbor c dir)"
    and "wall_symmetric cols rows m"
  shows "wall_symmetric cols rows (mark cols (carve cols m c dir) (neighbor c dir))"
  unfolding wall_symmetric_def
proof (intro allI impI)
  fix a e
  assume b: "in_bounds cols rows a \<and> in_bounds cols rows (neighbor a e)"
  have old: "removed cols m a e \<longleftrightarrow> removed cols m (neighbor a e) (opposite e)"
    using assms(4) b unfolding wall_symmetric_def by blast
  have 1: "(a = c \<and> e = dir) \<longleftrightarrow> (neighbor a e = neighbor c dir \<and> opposite (opposite e) = opposite (opposite dir))"
    by auto
  have 2: "(a = neighbor c dir \<and> e = opposite dir) \<longleftrightarrow> (neighbor a e = c \<and> opposite e = dir)"
  proof
    assume "a = neighbor c dir \<and> e = opposite dir"
    then show "neighbor a e = c \<and> opposite e = dir" by simp
  next
    assume r: "neighbor a e = c \<and> opposite e = dir"
    then have "neighbor c (opposite e) = a" by auto
    with r show "a = neighbor c dir \<and> e = opposite dir" by (auto simp: opposite_eq_swap)
  qed
  show "removed cols (mark cols (carve cols m c dir) (neighbor c dir)) a e \<longleftrightarrow>
        removed cols (mark cols (carve cols m c dir) (neighbor c dir)) (neighbor a e) (opposite e)"
    using b old 1 2 by (simp add: removed_step [OF assms(1-3)]) blast
qed

lemma closed_boundary_step:
  assumes "wf_maze cols rows m" "in_bounds cols rows c" "in_bounds cols rows (neighbor c dir)"
    and "closed_boundary cols rows m"
  shows "closed_boundary cols rows (mark cols (carve cols m c dir) (neighbor c dir))"
  unfolding closed_boundary_def
proof (intro allI impI)
  fix a e
  assume b: "in_bounds cols rows a \<and> \<not> in_bounds cols rows (neighbor a e)"
  then have "\<not> removed cols m a e"
    using assms(4) unfolding closed_boundary_def by blast
  moreover have "\<not> (a = c \<and> e = dir)" using b assms(3) by auto
  moreover have "\<not> (a = neighbor c dir \<and> e = opposite dir)" using b assms(2) by auto
  ultimately show "\<not> removed cols (mark cols (carve cols m c dir) (neighbor c dir)) a e"
    using b by (simp add: removed_step [OF assms(1-3)])
qed

lemma unvisited_intact_step:
  assumes "wf_maze cols rows m" "in_bounds cols rows c" "in_bounds cols rows (neighbor c dir)"
    and "visited (cell_at cols m c)"
    and "unvisited_intact cols rows m"
  shows "unvisited_intact cols rows (mark cols (carve cols m c dir) (neighbor c dir))"
  unfolding unvisited_intact_def
proof (intro allI impI)
  fix a e
  assume a: "in_bounds cols rows a \<and>
    \<not> visited (cell_at cols (mark cols (carve cols m c dir) (neighbor c dir)) a)"
  then have b: "in_bounds cols rows a" by simp
  from a have u: "\<not> visited (cell_at cols m a)" "a \<noteq> neighbor c dir"
    by (simp_all add: visited_step [OF assms(1-3) b])
  with assms(4) have "a \<noteq> c" by auto
  with u unvisited_intactD [OF assms(5) b u(1)]
  show "\<not> removed cols (mark cols (carve cols m c dir) (neighbor c dir)) a e"
    by (simp add: removed_step [OF assms(1-3) b])
qed

lemma reachable_cells_step:
  assumes "wf_maze cols rows m" "in_bounds cols rows c" "in_bounds cols rows (neighbor c dir)"
    and "c \<in> visited_cells cols rows m"
    and "\<forall>a \<in> visited_cells cols rows m. reachable cols rows m origin a"
    and "a \<in> visited_cells cols rows (mark cols (carve cols m c dir) (neighbor c dir))"
  shows "reachable cols rows (mark cols (carve cols m c dir) (neighbor c dir)) origin a"
proof -
  let ?m = "mark cols (carve cols m c dir) (neighbor c dir)"
  have mono: "reachable cols rows ?m x y" if "reachable cols rows m x y" for x y
    by (rule reachable_mono [OF _ that]) (simp add: passable_step [OF assms(1-3)])
  from assms(6) have "a \<in> visited_cells cols rows m \<or> a = neighbor c dir"
    unfolding visited_cells_step [OF assms(1-3)] by blast
  then show ?thesis
  proof
    assume "a \<in> visited_cells cols rows m"
    with assms(5) show ?thesis by (blast intro: mono)
  next
    assume a: "a = neighbor c dir"
    have "reachable cols rows ?m origin c" using assms(4,5) by (blast intro: mono)
    moreover have "adjacent cols rows ?m c a" using a by (simp add: adjacent_step [OF assms(1-3)])
    ultimately show ?thesis by (rule reachable_snoc)
  qed
qed

lemma cycle_index_arith:
  assumes "3 \<le> k" "i < (k::nat)"
  shows "Suc ((i + k - 1) mod k) mod k = i" and "(i + k - 1) mod k \<noteq> Suc i mod k"
proof -
  have "Suc ((i + k - 1) mod k) mod k = Suc (i + k - 1) mod k" by (rule mod_Suc_eq)
  also have "\<dots> = (i + k) mod k" using assms by simp
  also have "\<dots> = i" using assms by simp
  finally show "Suc ((i + k - 1) mod k) mod k = i" .
  show "(i + k - 1) mod k \<noteq> Suc i mod k"
  proof (cases "i = 0")
    case True
    then show ?thesis using assms by simp
  next
    case False
    then have "(i + k - 1) mod k = i - 1"
      using assms by (simp add: mod_if)
    moreover have "Suc i mod k = (if Suc i = k then 0 else Suc i)"
      using assms by (simp add: mod_if)
    ultimately show ?thesis using False assms by auto
  qed
qed

lemma acyclic_step:
  assumes wf: "wf_maze cols rows m" and c: "in_bounds cols rows c"
    and n: "in_bounds cols rows (neighbor c dir)"
    and sym: "wall_symmetric cols rows m"
    and fresh: "unvisited_intact cols rows m"
    and un: "\<not> visited (cell_at cols m (neighbor c dir))"
    and acyc: "acyclic_maze cols rows m"
  shows "acyclic_maze cols rows (mark cols (carve cols m c dir) (neighbor c dir))"
  unfolding acyclic_maze_def
proof (intro allI notI)
  let ?m = "mark cols (carve cols m c dir) (neighbor c dir)"
  let ?n = "neighbor c dir"
  fix p
  assume cyc: "cycle cols rows ?m p"
  let ?k = "length p"
  from cyc have k: "3 \<le> ?k" and dist: "distinct p"
    and adj: "\<And>i. i < ?k \<Longrightarrow> adjacent cols rows ?m (p ! i) (p ! (Suc i mod ?k))"
    by (auto simp: cycle_def)
  note iso = unvisited_isolated [OF wf sym fresh n un]
  have only: "\<And>a. adjacent cols rows ?m a ?n \<Longrightarrow> a = c" "\<And>a. adjacent cols rows ?m ?n a \<Longrightarrow> a = c"
    using iso by (auto simp: adjacent_step [OF wf c n])
  show False
  proof (cases "?n \<in> set p")
    case False
    have "cycle cols rows m p"
      unfolding cycle_def
    proof (intro conjI allI impI)
      fix i assume i: "i < ?k"
      have "0 < ?k" using k by linarith
      then have "Suc i mod ?k < ?k" by simp
      with i False have "p ! i \<noteq> ?n" "p ! (Suc i mod ?k) \<noteq> ?n"
        by (metis nth_mem)+
      with adj [OF i] show "adjacent cols rows m (p ! i) (p ! (Suc i mod ?k))"
        by (simp add: adjacent_step [OF wf c n])
    qed (use k dist in auto)
    with acyc show False by (simp add: acyclic_maze_def)
  next
    case True
    then obtain i where i: "i < ?k" "p ! i = ?n" by (auto simp: in_set_conv_nth)
    let ?j = "(i + ?k - 1) mod ?k"
    have kpos: "0 < ?k" using k by linarith
    have j: "?j < ?k" using kpos by simp
    have s: "Suc i mod ?k < ?k" using kpos by simp
    from adj [OF i(1)] i(2) have 1: "p ! (Suc i mod ?k) = c" by (simp add: only)
    from adj [OF j] cycle_index_arith(1) [OF k i(1)] i(2) have 2: "p ! ?j = c"
      by (simp add: only)
    from 1 2 have "p ! ?j = p ! (Suc i mod ?k)" by simp
    with nth_eq_iff_index_eq [OF dist j s] have "?j = Suc i mod ?k" by blast
    with cycle_index_arith(2) [OF k i(1)] show False by simp
  qed
qed

lemma passages_step:
  assumes wf: "wf_maze cols rows m" and c: "in_bounds cols rows c"
    and n: "in_bounds cols rows (neighbor c dir)"
  shows "passages cols rows (mark cols (carve cols m c dir) (neighbor c dir))
           = insert {c, neighbor c dir} (passages cols rows m)"
proof -
  have sw: "{neighbor c dir, c} = {c, neighbor c dir}" by (rule insert_commute)
  show ?thesis
  proof (rule set_eqI)
    fix e
    show "e \<in> passages cols rows (mark cols (carve cols m c dir) (neighbor c dir))
            \<longleftrightarrow> e \<in> insert {c, neighbor c dir} (passages cols rows m)"
      unfolding passages_def mem_Collect_eq adjacent_step [OF wf c n] insert_iff
      using sw by blast
  qed
qed

lemma passage_new:
  assumes wf: "wf_maze cols rows m" and sym: "wall_symmetric cols rows m"
    and fresh: "unvisited_intact cols rows m"
    and n: "in_bounds cols rows n" "\<not> visited (cell_at cols m n)"
  shows "{c, n} \<notin> passages cols rows m"
proof
  assume "{c, n} \<in> passages cols rows m"
  then obtain a b where ab: "{c, n} = {a, b}" "adjacent cols rows m a b"
    by (auto simp: passages_def)
  then have "a = n \<or> b = n" unfolding doubleton_eq_iff by blast
  with ab(2) unvisited_isolated [OF wf sym fresh n] show False by blast
qed

lemma gen_inv_step:
  assumes inv: "gen_inv cols rows origin m"
    and c: "c \<in> visited_cells cols rows m"
    and n: "in_bounds cols rows (neighbor c dir)"
    and un: "\<not> visited (cell_at cols m (neighbor c dir))"
  shows "gen_inv cols rows origin (mark cols (carve cols m c dir) (neighbor c dir))"
proof -
  let ?m = "mark cols (carve cols m c dir) (neighbor c dir)"
  from inv have wf: "wf_maze cols rows m" and sym: "wall_symmetric cols rows m"
    and cb: "closed_boundary cols rows m" and ui: "unvisited_intact cols rows m"
    and o: "origin \<in> visited_cells cols rows m"
    and re: "\<forall>c \<in> visited_cells cols rows m. reachable cols rows m origin c"
    and ac: "acyclic_maze cols rows m" and fin: "finite (passages cols rows m)"
    and cd: "Suc (card (passages cols rows m)) = card (visited_cells cols rows m)"
    by (simp_all add: gen_inv_def)
  from c have cb': "in_bounds cols rows c" and cv: "visited (cell_at cols m c)"
    by (simp_all add: visited_cells_def)
  have nv: "neighbor c dir \<notin> visited_cells cols rows m"
    using un by (simp add: visited_cells_def)
  have finV: "finite (visited_cells cols rows m)"
    by (rule finite_subset [OF _ finite_in_bounds [of cols rows]]) (auto simp: visited_cells_def)
  have 1: "wf_maze cols rows ?m" using wf by simp
  have 2: "wall_symmetric cols rows ?m" by (rule wall_symmetric_step [OF wf cb' n sym])
  have 3: "closed_boundary cols rows ?m" by (rule closed_boundary_step [OF wf cb' n cb])
  have 4: "unvisited_intact cols rows ?m" by (rule unvisited_intact_step [OF wf cb' n cv ui])
  have 5: "origin \<in> visited_cells cols rows ?m"
    using o by (simp add: visited_cells_step [OF wf cb' n])
  have 6: "\<forall>a \<in> visited_cells cols rows ?m. reachable cols rows ?m origin a"
    using reachable_cells_step [OF wf cb' n c re] by blast
  have 7: "acyclic_maze cols rows ?m" by (rule acyclic_step [OF wf cb' n sym ui un ac])
  have 8: "finite (passages cols rows ?m)"
    using fin by (simp add: passages_step [OF wf cb' n])
  have 9: "Suc (card (passages cols rows ?m)) = card (visited_cells cols rows ?m)"
    using cd fin finV nv passage_new [OF wf sym ui n un, of c]
    by (simp add: passages_step [OF wf cb' n] visited_cells_step [OF wf cb' n])
  from 1 2 3 4 5 6 7 8 9 show ?thesis unfolding gen_inv_def by blast
qed

lemma visit_inv_step:
  assumes inv: "visit_inv cols rows base m"
    and c: "c \<in> visited_cells cols rows m"
    and n: "in_bounds cols rows (neighbor c dir)"
    and un: "\<not> visited (cell_at cols m (neighbor c dir))"
  shows "visit_inv cols rows base (mark cols (carve cols m c dir) (neighbor c dir))"
proof -
  from inv obtain log where wf: "wf_maze cols rows m" and ma: "marks m = base @ log"
    and di: "distinct log" and se: "set log = visited_cells cols rows m"
    by (auto simp: visit_inv_def)
  from c have cb': "in_bounds cols rows c" by (simp add: visited_cells_def)
  have nv: "neighbor c dir \<notin> visited_cells cols rows m"
    using un by (simp add: visited_cells_def)
  let ?m = "mark cols (carve cols m c dir) (neighbor c dir)"
  have "marks ?m = base @ (log @ [neighbor c dir])" using ma by simp
  moreover have "distinct (log @ [neighbor c dir])" using di se nv by simp
  moreover have "set (log @ [neighbor c dir]) = visited_cells cols rows ?m"
    using se by (simp add: visited_cells_step [OF wf cb' n])
  moreover have "wf_maze cols rows ?m" using wf by simp
  ultimately show ?thesis unfolding visit_inv_def by blast
qed

section \<open>The generator state does not depend on the random generator\<close>

lemma cell_at_rng [simp]: "cell_at cols (m\<lparr> rng := r \<rparr>) = cell_at cols m"
  by (rule ext) (simp add: cell_at_def)

lemma wf_maze_rng [simp]: "wf_maze cols rows (m\<lparr> rng := r \<rparr>) = wf_maze cols rows m"
  by (simp add: wf_maze_def)

lemma removed_rng [simp]: "removed cols (m\<lparr> rng := r \<rparr>) = removed cols m"
  by (intro ext) (simp add: removed_def)

lemma visited_cells_rng [simp]:
  "visited_cells cols rows (m\<lparr> rng := r \<rparr>) = visited_cells cols rows m"
  by (simp add: visited_cells_def)

lemma unvisited_cells_rng [simp]:
  "unvisited_cells cols rows (m\<lparr> rng := r \<rparr>) = unvisited_cells cols rows m"
  by (simp add: unvisited_cells_def)

lemma passable_rng [simp]: "passable cols rows (m\<lparr> rng := r \<rparr>) = passable cols rows m"
  by (intro ext) (simp add: passable_def is_walkable_def)

lemma walk_rng [simp]: "walk cols rows (m\<lparr> rng := r \<rparr>) n a b = walk cols rows m n a b"
  by (induction n arbitrary: a) simp_all

lemma reachable_rng [simp]: "reachable cols rows (m\<lparr> rng := r \<rparr>) = reachable cols rows m"
  by (intro ext) (simp add: reachable_def)

lemma adjacent_rng [simp]: "adjacent cols rows (m\<lparr> rng := r \<rparr>) = adjacent cols rows m"
  by (intro ext) (simp add: adjacent_def)

lemma gen_inv_rng [simp]: "gen_inv cols rows origin (m\<lparr> rng := r \<rparr>) = gen_inv cols rows origin m"
  by (simp add: gen_inv_def wall_symmetric_def closed_boundary_def unvisited_intact_def
      acyclic_maze_def cycle_def passages_def)

lemma visit_inv_rng [simp]:
  "visit_inv cols rows base (m\<lparr> rng := r \<rparr>) = visit_inv cols rows base m"
  by (simp add: visit_inv_def)

section \<open>The generator visits every cell\<close>

lemma generate_maze_Suc:
  assumes "wf_maze cols rows m" "in_bounds cols rows (x, y)"
  shows "generate_maze (Suc fuel) shuffle cols rows x y m
           = generate_maze_for fuel shuffle cols rows x y
               (fst (shuffle (rng m) [NORTH, SOUTH, WEST, EAST]))
               ((mark cols m (x, y))\<lparr> rng := snd (shuffle (rng m) [NORTH, SOUTH, WEST, EAST]) \<rparr>)"
proof -
  have v: "valid_index (maze m) (y * cols + x)"
    using valid_index_cell [OF assms] by simp
  have r: "rng (mark_visited m (y * cols + x) x y) = rng m"
    by (simp add: mark_visited_def update_cell_def)
  show ?thesis
    using v by (simp add: Let_def r mark_def split_beta)
qed

lemma generate_maze_for_Cons:
  assumes "wf_maze cols rows m" "in_bounds cols rows (x, y)"
  shows "generate_maze_for fuel shuffle cols rows x y (dir # dirs) m
           = (if in_bounds cols rows (neighbor (x, y) dir)
                 \<and> \<not> visited (cell_at cols m (neighbor (x, y) dir))
              then case generate_maze fuel shuffle cols rows (next_x x dir) (next_y y dir)
                          (carve cols m (x, y) dir) of
                     Inl e \<Rightarrow> Inl e
                   | Inr m3 \<Rightarrow> generate_maze_for fuel shuffle cols rows x y dirs m3
              else generate_maze_for fuel shuffle cols rows x y dirs m)"
proof (cases "in_bounds cols rows (neighbor (x, y) dir)")
  case True
  have v: "valid_index (maze m) (next_y y dir * cols + next_x x dir)"
    using valid_index_cell [OF assms(1) True] by (simp add: neighbor_def)
  have b: "next_x x dir \<ge> 0 \<and> next_x x dir < cols \<and> next_y y dir \<ge> 0 \<and> next_y y dir < rows"
    using True by (simp add: in_bounds_def neighbor_def)
  show ?thesis
    using True v b
    by (simp add: Let_def carve_def neighbor_def cell_at_def index_def)
next
  case False
  then show ?thesis by (auto simp: Let_def in_bounds_def neighbor_def)
qed

declare generate_maze.simps [simp del]

lemma unvisited_cells_Diff:
  "unvisited_cells cols rows m = {c. in_bounds cols rows c} - visited_cells cols rows m"
  by (auto simp: unvisited_cells_def visited_cells_def)

lemma card_unvisited_mono:
  assumes "visited_cells cols rows m \<subseteq> visited_cells cols rows m'"
  shows "card (unvisited_cells cols rows m') \<le> card (unvisited_cells cols rows m)"
proof (rule card_mono)
  show "finite (unvisited_cells cols rows m)"
    unfolding unvisited_cells_Diff using finite_in_bounds by blast
  show "unvisited_cells cols rows m' \<subseteq> unvisited_cells cols rows m"
    unfolding unvisited_cells_Diff using assms by blast
qed

lemma visited_cells_carve:
  assumes "wf_maze cols rows m" "in_bounds cols rows c" "in_bounds cols rows (neighbor c dir)"
  shows "visited_cells cols rows (carve cols m c dir) = visited_cells cols rows m"
  using assms by (auto simp: visited_cells_def visited_carve)

lemma visited_cells_mark:
  assumes "wf_maze cols rows m" "in_bounds cols rows c"
  shows "visited_cells cols rows (mark cols m c) = insert c (visited_cells cols rows m)"
  using assms by (auto simp: visited_cells_def visited_mark)

lemma set_shuffle:
  assumes "shuffle_ok shuffle"
  shows "set (fst (shuffle r [NORTH, SOUTH, WEST, EAST])) = UNIV"
proof -
  from assms have "mset (fst (shuffle r [NORTH, SOUTH, WEST, EAST])) = mset [NORTH, SOUTH, WEST, EAST]"
    by (simp add: shuffle_ok_def)
  then have "set (fst (shuffle r [NORTH, SOUTH, WEST, EAST])) = set [NORTH, SOUTH, WEST, EAST]"
    by (rule mset_eq_setD)
  also have "\<dots> = UNIV"
  proof (intro set_eqI iffI UNIV_I)
    fix d :: direction show "d \<in> set [NORTH, SOUTH, WEST, EAST]" by (cases d) simp_all
  qed
  finally show ?thesis .
qed

lemma generate_maze_for_spec:
  fixes I :: "'r Maze \<Rightarrow> bool"
  assumes wfI: "\<And>m. I m \<Longrightarrow> wf_maze cols rows m"
    and stepI: "\<And>m c dir. I m \<Longrightarrow> c \<in> visited_cells cols rows m \<Longrightarrow>
        in_bounds cols rows (neighbor c dir) \<Longrightarrow> \<not> visited (cell_at cols m (neighbor c dir)) \<Longrightarrow>
        I (mark cols (carve cols m c dir) (neighbor c dir))"
    and gen: "\<And>x y m. in_bounds cols rows (x, y) \<Longrightarrow> wf_maze cols rows m \<Longrightarrow>
        I (mark cols m (x, y)) \<Longrightarrow>
        card (unvisited_cells cols rows m - {(x, y)}) < fuel \<Longrightarrow>
        \<exists>m'. generate_maze fuel shuffle cols rows x y m = Inr m' \<and> I m' \<and>
             gen_post cols rows (visited_cells cols rows m) m' \<and>
             (x, y) \<in> visited_cells cols rows m'"
  shows "I m \<Longrightarrow> (x, y) \<in> visited_cells cols rows m \<Longrightarrow>
         card (unvisited_cells cols rows m) \<le> fuel \<Longrightarrow>
         \<exists>m'. generate_maze_for fuel shuffle cols rows x y dirs m = Inr m' \<and> I m' \<and>
              gen_post cols rows (visited_cells cols rows m) m' \<and>
              (\<forall>d \<in> set dirs. in_bounds cols rows (neighbor (x, y) d) \<longrightarrow>
                   neighbor (x, y) d \<in> visited_cells cols rows m')"
proof (induction dirs arbitrary: m)
  case Nil
  then show ?case by (simp add: gen_post_def generate_maze.simps)
next
  case (Cons dir dirs)
  let ?n = "neighbor (x, y) dir"
  let ?V = "visited_cells cols rows"
  from Cons.prems have wf: "wf_maze cols rows m" and xy: "in_bounds cols rows (x, y)"
    by (auto simp: wfI visited_cells_def)
  show ?case
  proof (cases "in_bounds cols rows ?n \<and> \<not> visited (cell_at cols m ?n)")
    case True
    let ?m2 = "carve cols m (x, y) dir"
    have n: "in_bounds cols rows ?n" and un: "\<not> visited (cell_at cols m ?n)"
      using True by simp_all
    have nn: "(next_x x dir, next_y y dir) = ?n" by (simp add: neighbor_def)
    have V2: "?V ?m2 = ?V m" by (rule visited_cells_carve [OF wf xy n])
    have p1: "in_bounds cols rows (next_x x dir, next_y y dir)" using n nn by simp
    have p2: "wf_maze cols rows ?m2" using wf by simp
    have p3: "\<not> visited (cell_at cols ?m2 (next_x x dir, next_y y dir))"
      using un by (simp add: nn visited_carve [OF wf xy n n])
    have p4: "I (mark cols ?m2 (next_x x dir, next_y y dir))"
      unfolding nn by (rule stepI [OF Cons.prems(1,2) n un])
    have fin2: "finite (unvisited_cells cols rows ?m2)"
      unfolding unvisited_cells_Diff using finite_in_bounds by blast
    have mem2: "(next_x x dir, next_y y dir) \<in> unvisited_cells cols rows ?m2"
      using p1 p3 by (simp add: unvisited_cells_def)
    have le2: "card (unvisited_cells cols rows ?m2) \<le> fuel"
      using Cons.prems(3) by (simp add: unvisited_cells_Diff V2)
    have p5: "card (unvisited_cells cols rows ?m2 - {(next_x x dir, next_y y dir)}) < fuel"
      using card_Diff1_less [OF fin2 mem2] le2 by linarith
    from gen [OF p1 p2 p4 p5] obtain m3 where
      g: "generate_maze fuel shuffle cols rows (next_x x dir) (next_y y dir) ?m2 = Inr m3"
      and I3: "I m3" and post3: "gen_post cols rows (?V m) m3" and n3: "?n \<in> ?V m3"
      by (auto simp: V2 nn)
    from post3 have sub3: "?V m \<subseteq> ?V m3" by (simp add: gen_post_def)
    have q2: "(x, y) \<in> ?V m3" using sub3 Cons.prems(2) by blast
    have q3: "card (unvisited_cells cols rows m3) \<le> fuel"
      using card_unvisited_mono [OF sub3] Cons.prems(3) by simp
    from Cons.IH [OF I3 q2 q3] obtain m' where
      f: "generate_maze_for fuel shuffle cols rows x y dirs m3 = Inr m'"
      and I': "I m'" and post': "gen_post cols rows (?V m3) m'"
      and ds: "\<forall>d \<in> set dirs. in_bounds cols rows (neighbor (x, y) d) \<longrightarrow> neighbor (x, y) d \<in> ?V m'"
      by blast
    from post' have sub': "?V m3 \<subseteq> ?V m'" by (simp add: gen_post_def)
    have e: "generate_maze_for fuel shuffle cols rows x y (dir # dirs) m = Inr m'"
      unfolding generate_maze_for_Cons [OF wf xy] if_P [OF True] using g f by simp
    have post: "gen_post cols rows (?V m) m'"
      using post3 post' unfolding gen_post_def by blast
    have "\<forall>d \<in> set (dir # dirs). in_bounds cols rows (neighbor (x, y) d) \<longrightarrow> neighbor (x, y) d \<in> ?V m'"
      using ds n3 sub' by auto
    with e I' post show ?thesis by blast
  next
    case False
    from Cons.IH [OF Cons.prems] obtain m' where
      f: "generate_maze_for fuel shuffle cols rows x y dirs m = Inr m'"
      and I': "I m'" and post': "gen_post cols rows (?V m) m'"
      and ds: "\<forall>d \<in> set dirs. in_bounds cols rows (neighbor (x, y) d) \<longrightarrow> neighbor (x, y) d \<in> ?V m'"
      by blast
    have e: "generate_maze_for fuel shuffle cols rows x y (dir # dirs) m = Inr m'"
      unfolding generate_maze_for_Cons [OF wf xy] if_not_P [OF False] by (rule f)
    from post' have sub': "?V m \<subseteq> ?V m'" by (simp add: gen_post_def)
    have "in_bounds cols rows ?n \<longrightarrow> ?n \<in> ?V m'"
      using False sub' by (auto simp: visited_cells_def)
    with ds have "\<forall>d \<in> set (dir # dirs). in_bounds cols rows (neighbor (x, y) d) \<longrightarrow> neighbor (x, y) d \<in> ?V m'"
      by simp
    with e I' post' show ?thesis by blast
  qed
qed

lemma generate_maze_spec:
  fixes I :: "'r Maze \<Rightarrow> bool"
  assumes sh: "shuffle_ok shuffle"
    and wfI: "\<And>m. I m \<Longrightarrow> wf_maze cols rows m"
    and rngI: "\<And>m r. I m \<Longrightarrow> I (m\<lparr> rng := r \<rparr>)"
    and stepI: "\<And>m c dir. I m \<Longrightarrow> c \<in> visited_cells cols rows m \<Longrightarrow>
        in_bounds cols rows (neighbor c dir) \<Longrightarrow> \<not> visited (cell_at cols m (neighbor c dir)) \<Longrightarrow>
        I (mark cols (carve cols m c dir) (neighbor c dir))"
  shows "in_bounds cols rows (x, y) \<Longrightarrow> wf_maze cols rows m \<Longrightarrow>
        I (mark cols m (x, y)) \<Longrightarrow>
        card (unvisited_cells cols rows m - {(x, y)}) < fuel \<Longrightarrow>
        \<exists>m'. generate_maze fuel shuffle cols rows x y m = Inr m' \<and> I m' \<and>
             gen_post cols rows (visited_cells cols rows m) m' \<and>
             (x, y) \<in> visited_cells cols rows m'"
proof (induction fuel arbitrary: x y m)
  case 0
  then show ?case by simp
next
  case (Suc fuel)
  let ?V = "visited_cells cols rows"
  let ?ds = "fst (shuffle (rng m) [NORTH, SOUTH, WEST, EAST])"
  let ?m2 = "(mark cols m (x, y))\<lparr> rng := snd (shuffle (rng m) [NORTH, SOUTH, WEST, EAST]) \<rparr>"
  have V2: "?V ?m2 = insert (x, y) (?V m)"
    using Suc.prems by (simp add: visited_cells_mark)
  have "unvisited_cells cols rows ?m2 = unvisited_cells cols rows m - {(x, y)}"
    unfolding unvisited_cells_Diff V2 by blast
  then have c2: "card (unvisited_cells cols rows ?m2) \<le> fuel"
    using Suc.prems(4) by simp
  have I2: "I ?m2" using Suc.prems(3) by (rule rngI)
  have xy2: "(x, y) \<in> ?V ?m2" unfolding V2 by simp
  from generate_maze_for_spec [where I = I, OF wfI stepI Suc.IH I2 xy2 c2, of ?ds]
  obtain m' where
    f: "generate_maze_for fuel shuffle cols rows x y ?ds ?m2 = Inr m'"
    and I': "I m'" and post': "gen_post cols rows (?V ?m2) m'"
    and ds: "\<forall>d \<in> set ?ds. in_bounds cols rows (neighbor (x, y) d) \<longrightarrow> neighbor (x, y) d \<in> ?V m'"
    by blast
  have e: "generate_maze (Suc fuel) shuffle cols rows x y m = Inr m'"
    using f by (simp only: generate_maze_Suc [OF Suc.prems(2,1)])
  have all: "\<forall>d. in_bounds cols rows (neighbor (x, y) d) \<longrightarrow> neighbor (x, y) d \<in> ?V m'"
    using ds unfolding set_shuffle [OF sh] by simp
  have post: "gen_post cols rows (?V m) m'"
    using post' all unfolding gen_post_def V2 by blast
  have "(x, y) \<in> ?V m'" using post' unfolding gen_post_def V2 by blast
  with e I' post show ?case by blast
qed

lemma neighbor_simps:
  "neighbor (a, b) NORTH = (a, b - 1)" "neighbor (a, b) SOUTH = (a, b + 1)"
  "neighbor (a, b) WEST = (a - 1, b)" "neighbor (a, b) EAST = (a + 1, b)"
  by (simp_all add: neighbor_def next_x_def next_y_def)

lemma grid_line_x:
  assumes cl: "\<And>c d. c \<in> S \<Longrightarrow> in_bounds cols rows (neighbor c d) \<Longrightarrow> neighbor c d \<in> S"
    and o: "(x0, y0) \<in> S" "in_bounds cols rows (x0, y0)"
  shows "in_bounds cols rows (x1, y0) \<Longrightarrow> (x1, y0) \<in> S"
proof (induction "nat (abs (x1 - x0))" arbitrary: x1)
  case 0
  then have "x1 = x0" by simp
  with o show ?case by simp
next
  case (Suc k)
  show ?case
  proof (cases "x0 < x1")
    case True
    have "k = nat (abs (x1 - 1 - x0))" using Suc.hyps(2) True by simp
    moreover have "in_bounds cols rows (x1 - 1, y0)"
      using Suc.prems o(2) True by (simp add: in_bounds_def)
    ultimately have "(x1 - 1, y0) \<in> S" by (rule Suc.hyps(1))
    from cl [OF this, of EAST] Suc.prems show ?thesis by (simp add: neighbor_simps)
  next
    case False
    with Suc.hyps(2) have lt: "x1 < x0" by simp
    have "k = nat (abs (x1 + 1 - x0))" using Suc.hyps(2) lt by simp
    moreover have "in_bounds cols rows (x1 + 1, y0)"
      using Suc.prems o(2) lt by (simp add: in_bounds_def)
    ultimately have "(x1 + 1, y0) \<in> S" by (rule Suc.hyps(1))
    from cl [OF this, of WEST] Suc.prems show ?thesis by (simp add: neighbor_simps)
  qed
qed

lemma grid_line_y:
  assumes cl: "\<And>c d. c \<in> S \<Longrightarrow> in_bounds cols rows (neighbor c d) \<Longrightarrow> neighbor c d \<in> S"
    and o: "(x0, y0) \<in> S" "in_bounds cols rows (x0, y0)"
  shows "in_bounds cols rows (x0, y1) \<Longrightarrow> (x0, y1) \<in> S"
proof (induction "nat (abs (y1 - y0))" arbitrary: y1)
  case 0
  then have "y1 = y0" by simp
  with o show ?case by simp
next
  case (Suc k)
  show ?case
  proof (cases "y0 < y1")
    case True
    have "k = nat (abs (y1 - 1 - y0))" using Suc.hyps(2) True by simp
    moreover have "in_bounds cols rows (x0, y1 - 1)"
      using Suc.prems o(2) True by (simp add: in_bounds_def)
    ultimately have "(x0, y1 - 1) \<in> S" by (rule Suc.hyps(1))
    from cl [OF this, of SOUTH] Suc.prems show ?thesis by (simp add: neighbor_simps)
  next
    case False
    with Suc.hyps(2) have lt: "y1 < y0" by simp
    have "k = nat (abs (y1 + 1 - y0))" using Suc.hyps(2) lt by simp
    moreover have "in_bounds cols rows (x0, y1 + 1)"
      using Suc.prems o(2) lt by (simp add: in_bounds_def)
    ultimately have "(x0, y1 + 1) \<in> S" by (rule Suc.hyps(1))
    from cl [OF this, of NORTH] Suc.prems show ?thesis by (simp add: neighbor_simps)
  qed
qed

lemma grid_closure:
  assumes cl: "\<And>c d. c \<in> S \<Longrightarrow> in_bounds cols rows (neighbor c d) \<Longrightarrow> neighbor c d \<in> S"
    and o: "origin \<in> S" "in_bounds cols rows origin"
    and t: "in_bounds cols rows t"
  shows "t \<in> S"
proof -
  obtain x0 y0 where oe: "origin = (x0, y0)" by (cases origin)
  obtain x1 y1 where te: "t = (x1, y1)" by (cases t)
  have b: "in_bounds cols rows (x1, y0)" using o(2) t by (simp add: oe te in_bounds_def)
  have "(x1, y0) \<in> S"
    using grid_line_x [of S cols rows x0 y0 x1, OF cl] o b by (simp add: oe)
  from grid_line_y [of S cols rows x1 y0 y1, OF cl this b] t show ?thesis by (simp add: te)
qed

lemma cell_at_mem:
  assumes "wf_maze cols rows m" "in_bounds cols rows c"
  shows "cell_at cols m c \<in> set (maze m)"
proof -
  have "nat (index cols (fst c) (snd c)) < length (maze m)"
    using valid_index_cell [OF assms] by (auto simp: valid_index_def index_def nat_less_iff)
  then show ?thesis by (simp add: cell_at_def)
qed

lemma all_unvisited_cell:
  "all_unvisited cols rows m \<Longrightarrow> in_bounds cols rows c \<Longrightarrow> \<not> visited (cell_at cols m c)"
  using cell_at_mem [of cols rows m c] by (simp add: all_unvisited_def)

lemma all_walls_cell:
  "all_walls cols rows m \<Longrightarrow> in_bounds cols rows c \<Longrightarrow> \<not> removed cols m c dir"
  using cell_at_mem [of cols rows m c] by (simp add: all_walls_def removed_def)

lemma all_unvisited_visited_cells: "all_unvisited cols rows m \<Longrightarrow> visited_cells cols rows m = {}"
  using all_unvisited_cell [of cols rows m] by (auto simp: visited_cells_def)

lemma visit_inv_init:
  assumes "all_unvisited cols rows m" "in_bounds cols rows origin"
  shows "visit_inv cols rows (marks m) (mark cols m origin)"
proof -
  from assms(1) have wf: "wf_maze cols rows m" by (simp add: all_unvisited_def)
  have "marks (mark cols m origin) = marks m @ [origin]" by simp
  moreover have "set [origin] = visited_cells cols rows (mark cols m origin)"
    using all_unvisited_visited_cells [OF assms(1)] by (simp add: visited_cells_mark [OF wf assms(2)])
  moreover have "distinct [origin]" by simp
  moreover have "wf_maze cols rows (mark cols m origin)" using wf by simp
  ultimately show ?thesis unfolding visit_inv_def by blast
qed

lemma gen_inv_init:
  assumes "fresh_grid cols rows m" "in_bounds cols rows origin"
  shows "gen_inv cols rows origin (mark cols m origin)"
proof -
  let ?m = "mark cols m origin"
  from assms(1) have au: "all_unvisited cols rows m" and aw: "all_walls cols rows m"
    by (simp_all add: fresh_grid_def)
  from au have wf: "wf_maze cols rows m" by (simp add: all_unvisited_def)
  have V: "visited_cells cols rows ?m = {origin}"
    using all_unvisited_visited_cells [OF au] by (simp add: visited_cells_mark [OF wf assms(2)])
  have nr: "\<not> removed cols ?m a e" if "in_bounds cols rows a" for a e
    unfolding removed_mark [OF wf assms(2) that] by (rule all_walls_cell [OF aw that])
  have np: "\<not> passable cols rows ?m a e" for a e
    using nr wf by (auto simp: passable_iff)
  have na: "\<not> adjacent cols rows ?m a b" for a b
    using np by (simp add: adjacent_def)
  have P: "passages cols rows ?m = {}" using na by (simp add: passages_def)
  have 1: "wf_maze cols rows ?m" using wf by simp
  have 2: "wall_symmetric cols rows ?m" using nr by (simp add: wall_symmetric_def)
  have 3: "closed_boundary cols rows ?m" using nr by (simp add: closed_boundary_def)
  have 4: "unvisited_intact cols rows ?m" using nr by (simp add: unvisited_intact_def)
  have 6: "\<forall>c \<in> visited_cells cols rows ?m. reachable cols rows ?m origin c"
    unfolding V by (simp add: reachable_refl)
  have 7: "acyclic_maze cols rows ?m"
    unfolding acyclic_maze_def cycle_def using na by fastforce
  from 1 2 3 4 6 7 show ?thesis
    unfolding gen_inv_def using V P by simp
qed

lemma card_unvisited_origin:
  assumes o: "in_bounds cols rows origin" and fuel: "nat (cols * rows) \<le> fuel"
  shows "card (unvisited_cells cols rows m - {origin}) < fuel"
proof -
  have "unvisited_cells cols rows m - {origin} \<subseteq> {c. in_bounds cols rows c} - {origin}"
    by (auto simp: unvisited_cells_def)
  then have "card (unvisited_cells cols rows m - {origin}) \<le> card ({c. in_bounds cols rows c} - {origin})"
    by (rule card_mono [rotated]) (use finite_in_bounds in blast)
  also have "\<dots> < card {c. in_bounds cols rows c}"
    by (rule card_Diff1_less [OF finite_in_bounds]) (use o in simp)
  also have "\<dots> = nat cols * nat rows" by (rule card_in_bounds)
  also have "\<dots> \<le> nat (cols * rows)"
    by (cases "0 \<le> cols") (simp_all add: nat_mult_distrib)
  finally show ?thesis using fuel by simp
qed

lemma gen_post_all_visited:
  assumes post: "gen_post cols rows {} m" and o: "origin \<in> visited_cells cols rows m"
  shows "visited_cells cols rows m = {c. in_bounds cols rows c}"
proof
  show "visited_cells cols rows m \<subseteq> {c. in_bounds cols rows c}"
    by (auto simp: visited_cells_def)
  have ob: "in_bounds cols rows origin" using o by (simp add: visited_cells_def)
  have cl: "\<And>c d. c \<in> visited_cells cols rows m \<Longrightarrow> in_bounds cols rows (neighbor c d) \<Longrightarrow>
      neighbor c d \<in> visited_cells cols rows m"
    using post unfolding gen_post_def by blast
  show "{c. in_bounds cols rows c} \<subseteq> visited_cells cols rows m"
    using grid_closure [of "visited_cells cols rows m" cols rows origin, OF cl o ob] by blast
qed

text \<open>
  The generator run from an in-bounds origin on a fresh grid, with enough depth allowed:
  it returns, the invariant holds and every cell is visited.
\<close>

lemma generate_maze_total:
  assumes fresh: "fresh_grid cols rows m" and o: "in_bounds cols rows (x, y)"
    and sh: "shuffle_ok shuffle" and fuel: "nat (cols * rows) \<le> fuel"
  shows "\<exists>m'. generate_maze fuel shuffle cols rows x y m = Inr m' \<and>
              gen_inv cols rows (x, y) m' \<and>
              visited_cells cols rows m' = {c. in_bounds cols rows c}"
proof -
  from fresh have wf: "wf_maze cols rows m" by (simp add: fresh_grid_def all_walls_def)
  have V0: "visited_cells cols rows m = {}"
    using fresh by (simp add: fresh_grid_def all_unvisited_visited_cells)
  note c = card_unvisited_origin [OF o fuel, of m]
  have "\<exists>m'. generate_maze fuel shuffle cols rows x y m = Inr m' \<and> gen_inv cols rows (x, y) m' \<and>
             gen_post cols rows (visited_cells cols rows m) m' \<and>
             (x, y) \<in> visited_cells cols rows m'"
  proof (rule generate_maze_spec [where I = "gen_inv cols rows (x, y)", OF sh _ _ _ o wf _ c])
    show "\<And>m. gen_inv cols rows (x, y) m \<Longrightarrow> wf_maze cols rows m" by (simp add: gen_inv_def)
    show "\<And>m r. gen_inv cols rows (x, y) m \<Longrightarrow> gen_inv cols rows (x, y) (m\<lparr> rng := r \<rparr>)" by simp
    show "\<And>m c dir. gen_inv cols rows (x, y) m \<Longrightarrow> c \<in> visited_cells cols rows m \<Longrightarrow>
        in_bounds cols rows (neighbor c dir) \<Longrightarrow> \<not> visited (cell_at cols m (neighbor c dir)) \<Longrightarrow>
        gen_inv cols rows (x, y) (mark cols (carve cols m c dir) (neighbor c dir))"
      by (rule gen_inv_step)
    show "gen_inv cols rows (x, y) (mark cols m (x, y))" by (rule gen_inv_init [OF fresh o])
  qed
  then obtain m' where g: "generate_maze fuel shuffle cols rows x y m = Inr m'"
    and inv: "gen_inv cols rows (x, y) m'" and post: "gen_post cols rows {} m'"
    and mem: "(x, y) \<in> visited_cells cols rows m'"
    unfolding V0 by blast
  from gen_post_all_visited [OF post mem] g inv show ?thesis by blast
qed

lemma maze_cell_position:
  assumes wf: "wf_maze cols rows m" and cols: "0 < cols" and c: "c \<in> set (maze m)"
  shows "\<exists>p. in_bounds cols rows p \<and> c = cell_at cols m p"
proof -
  from c obtain i where i: "i < length (maze m)" "c = maze m ! i"
    by (auto simp: in_set_conv_nth)
  let ?p = "(int i mod cols, int i div cols)"
  from i(1) wf have lt: "int i < cols * rows" by (simp add: wf_maze_def)
  have "int i div cols < rows"
  proof (rule ccontr)
    assume "\<not> int i div cols < rows"
    then have "rows * cols \<le> (int i div cols) * cols"
      using cols by (intro mult_right_mono) simp_all
    also have "\<dots> \<le> (int i div cols) * cols + int i mod cols"
      using pos_mod_sign [OF cols, of "int i"] by linarith
    also have "\<dots> = int i" by simp
    finally show False using lt by (simp add: mult.commute)
  qed
  moreover have "0 \<le> int i div cols" using cols by (simp add: pos_imp_zdiv_nonneg_iff)
  ultimately have "in_bounds cols rows ?p" using cols by (simp add: in_bounds_def)
  moreover have "index cols (fst ?p) (snd ?p) = int i" by (simp add: index_def)
  then have "c = cell_at cols m ?p" using i(2) by (simp add: cell_at_def)
  ultimately show ?thesis by blast
qed

lemma mset_rotate_eq: "mset (rotate n xs) = mset xs"
proof -
  have "mset (drop k xs @ take k xs) = mset xs" for k
    using append_take_drop_id [of k xs] by (metis mset_append union_commute)
  then show ?thesis by (simp add: rotate_drop_take)
qed

lemma shuffle_ok_rotate: "shuffle_ok rotate_shuffle"
  by (simp add: shuffle_ok_def rotate_shuffle_def mset_rotate_eq)

lemma walk_reverse:
  assumes wf: "wf_maze cols rows m" and sym: "wall_symmetric cols rows m"
    and cb: "closed_boundary cols rows m"
  shows "walk cols rows m n a b \<Longrightarrow> walk cols rows m n b a"
proof (induction n arbitrary: a)
  case 0
  then show ?case by simp
next
  case (Suc n)
  then obtain dir where d: "passable cols rows m a dir"
    and w: "walk cols rows m n (neighbor a dir) b" by auto
  from d have a: "in_bounds cols rows a" "removed cols m a dir"
    by (simp_all add: passable_iff [OF wf])
  with cb have nb: "in_bounds cols rows (neighbor a dir)"
    unfolding closed_boundary_def by blast
  with sym a have "removed cols m (neighbor a dir) (opposite dir)"
    unfolding wall_symmetric_def by blast
  with nb have "passable cols rows m (neighbor a dir) (opposite dir)"
    by (simp add: passable_iff [OF wf])
  then have "adjacent cols rows m (neighbor a dir) a"
    unfolding adjacent_def by (rule_tac x = "opposite dir" in exI) simp
  with Suc.IH [OF w] show ?case by (rule walk_snoc)
qed

lemma wall_symmetric_rng [simp]:
  "wall_symmetric cols rows (m\<lparr> rng := r \<rparr>) = wall_symmetric cols rows m"
  by (simp add: wall_symmetric_def)

lemma closed_boundary_rng [simp]:
  "closed_boundary cols rows (m\<lparr> rng := r \<rparr>) = closed_boundary cols rows m"
  by (simp add: closed_boundary_def)

lemma wall_symmetric_mark:
  assumes "wf_maze cols rows m" "in_bounds cols rows c"
  shows "wall_symmetric cols rows (mark cols m c) = wall_symmetric cols rows m"
  using assms by (simp add: wall_symmetric_def removed_mark)

lemma closed_boundary_mark:
  assumes "wf_maze cols rows m" "in_bounds cols rows c"
  shows "closed_boundary cols rows (mark cols m c) = closed_boundary cols rows m"
  using assms by (simp add: closed_boundary_def removed_mark)

text \<open>The generator preserves any property of the walls that carving a passage preserves.\<close>

lemma generate_maze_walls:
  fixes W :: "'r Maze \<Rightarrow> bool"
  assumes wf: "wf_maze cols rows m" and o: "in_bounds cols rows (x, y)"
    and sh: "shuffle_ok shuffle" and fuel: "nat (cols * rows) \<le> fuel"
    and W0: "W (mark cols m (x, y))"
    and rngW: "\<And>m r. W (m\<lparr> rng := r \<rparr>) = W m"
    and stepW: "\<And>m c dir. wf_maze cols rows m \<Longrightarrow> in_bounds cols rows c \<Longrightarrow>
        in_bounds cols rows (neighbor c dir) \<Longrightarrow> W m \<Longrightarrow>
        W (mark cols (carve cols m c dir) (neighbor c dir))"
  shows "\<exists>m'. generate_maze fuel shuffle cols rows x y m = Inr m' \<and> wf_maze cols rows m' \<and> W m'"
proof -
  let ?I = "\<lambda>m. wf_maze cols rows m \<and> W m"
  note c = card_unvisited_origin [OF o fuel, of m]
  have "\<exists>m'. generate_maze fuel shuffle cols rows x y m = Inr m' \<and> ?I m' \<and>
             gen_post cols rows (visited_cells cols rows m) m' \<and>
             (x, y) \<in> visited_cells cols rows m'"
  proof (rule generate_maze_spec [where I = ?I, OF sh _ _ _ o wf _ c])
    show "\<And>m. ?I m \<Longrightarrow> wf_maze cols rows m" by simp
    show "\<And>m r. ?I m \<Longrightarrow> ?I (m\<lparr> rng := r \<rparr>)" by (simp add: rngW)
    show "\<And>m c dir. ?I m \<Longrightarrow> c \<in> visited_cells cols rows m \<Longrightarrow>
        in_bounds cols rows (neighbor c dir) \<Longrightarrow> \<not> visited (cell_at cols m (neighbor c dir)) \<Longrightarrow>
        ?I (mark cols (carve cols m c dir) (neighbor c dir))"
      using stepW by (simp add: visited_cells_def)
    show "?I (mark cols m (x, y))" using wf W0 by simp
  qed
  then show ?thesis by blast
qed

section \<open>The state of the search\<close>

lemma index_start [simp]: "index cols 0 0 = 0"
  by (simp add: index_def)

lemma cell_index_lt:
  assumes "in_bounds cols rows c"
  shows "nat (index cols (fst c) (snd c)) < nat (cols * rows)"
  using index_in_range [OF assms] by (simp add: nat_less_iff)

lemma cell_index_eq:
  assumes "in_bounds cols rows a" "in_bounds cols rows b"
  shows "nat (index cols (fst a) (snd a)) = nat (index cols (fst b) (snd b)) \<longleftrightarrow> a = b"
  using nat_index_eq [OF assms] by (simp add: index_def)

lemma cell_index_eq_int:
  assumes "in_bounds cols rows a" "in_bounds cols rows b"
  shows "index cols (fst a) (snd a) = index cols (fst b) (snd b) \<longleftrightarrow> a = b"
  using index_inj [OF assms] by auto

lemma g_at_fields [simp]:
  "g_at cols (s\<lparr> open_set := q \<rparr>) = g_at cols s"
  "g_at cols (s\<lparr> came_from := cf \<rparr>) = g_at cols s"
  "g_at cols (s\<lparr> visited_v := vs \<rparr>) = g_at cols s"
  by (simp_all add: g_at_def fun_eq_iff)

lemma closed_at_fields [simp]:
  "closed_at cols (s\<lparr> open_set := q \<rparr>) = closed_at cols s"
  "closed_at cols (s\<lparr> came_from := cf \<rparr>) = closed_at cols s"
  "closed_at cols (s\<lparr> g_cost_v := gs \<rparr>) = closed_at cols s"
  by (simp_all add: closed_at_def fun_eq_iff)

lemma closed_cells_fields [simp]:
  "closed_cells cols rows (s\<lparr> open_set := q \<rparr>) = closed_cells cols rows s"
  "closed_cells cols rows (s\<lparr> came_from := cf \<rparr>) = closed_cells cols rows s"
  "closed_cells cols rows (s\<lparr> g_cost_v := gs \<rparr>) = closed_cells cols rows s"
  by (simp_all add: closed_cells_def)

lemma g_at_update:
  assumes "length (g_cost_v s) = nat (cols * rows)"
    and "in_bounds cols rows a" "in_bounds cols rows c"
  shows "g_at cols (s\<lparr> g_cost_v := (g_cost_v s)[nat (index cols (fst a) (snd a)) := v] \<rparr>) c
           = (if c = a then v else g_at cols s c)"
  using assms cell_index_lt [OF assms(2)] cell_index_eq [OF assms(2,3)]
  by (auto simp: g_at_def)

lemma closed_at_update:
  assumes "length (visited_v s) = nat (cols * rows)"
    and "in_bounds cols rows a" "in_bounds cols rows c"
  shows "closed_at cols (s\<lparr> visited_v := (visited_v s)[nat (index cols (fst a) (snd a)) := v] \<rparr>) c
           = (if c = a then v else closed_at cols s c)"
  using assms cell_index_lt [OF assms(2)] cell_index_eq [OF assms(2,3)]
  by (auto simp: closed_at_def)

lemma finite_closed_cells: "finite (closed_cells cols rows s)"
  by (rule finite_subset [OF _ finite_in_bounds [of cols rows]]) (auto simp: closed_cells_def)

lemma card_closed_cells_le: "0 < cols \<Longrightarrow> 0 < rows \<Longrightarrow> int (card (closed_cells cols rows s)) \<le> cols * rows"
proof -
  assume p: "0 < cols" "0 < rows"
  have "card (closed_cells cols rows s) \<le> card {c. in_bounds cols rows c}"
    by (rule card_mono [OF finite_in_bounds]) (auto simp: closed_cells_def)
  also have "\<dots> = nat (cols * rows)" using p by (simp add: card_in_bounds nat_mult_distrib)
  finally have "card (closed_cells cols rows s) \<le> nat (cols * rows)" .
  moreover have "0 \<le> cols * rows" using p by simp
  ultimately show ?thesis by linarith
qed

section \<open>The loop\<close>

lemma a_star_loop_rule:
  fixes I :: "('q, 'r) astar_state \<Rightarrow> bool" and f :: "('q, 'r) astar_state \<Rightarrow> nat"
  assumes step: "\<And>s. I s \<Longrightarrow> \<not> pq_empty P (open_set s) \<Longrightarrow>
        (\<exists>r. a_star_step P cols rows s = Inl (Some r) \<and> Q r) \<or>
        (\<exists>s'. a_star_step P cols rows s = Inr s' \<and> I s' \<and> f s' < f s)"
    and empty: "\<And>s. I s \<Longrightarrow> pq_empty P (open_set s) \<Longrightarrow> Q (Inr ([], maze_ref s))"
  shows "I s \<Longrightarrow> \<exists>r. a_star_loop P cols rows s = Some r \<and> Q r"
proof (induction "f s" arbitrary: s rule: less_induct)
  case less
  show ?case
  proof (cases "pq_empty P (open_set s)")
    case True
    with empty [OF less.prems] show ?thesis
      by (subst a_star_loop.simps) simp
  next
    case False
    from step [OF less.prems False] show ?thesis
    proof
      assume "\<exists>r. a_star_step P cols rows s = Inl (Some r) \<and> Q r"
      with False show ?thesis by (subst a_star_loop.simps) auto
    next
      assume "\<exists>s'. a_star_step P cols rows s = Inr s' \<and> I s' \<and> f s' < f s"
      then obtain s' where s': "a_star_step P cols rows s = Inr s'" "I s'" "f s' < f s" by blast
      from less.hyps [OF s'(3) s'(2)] obtain r where "a_star_loop P cols rows s' = Some r" "Q r"
        by blast
      with False s'(1) show ?thesis by (subst a_star_loop.simps) auto
    qed
  qed
qed

section \<open>Reading the invariant\<close>

lemma inv_closedD:
  assumes "inv_closed cols rows m exc s" "in_bounds cols rows c" "closed_at cols s c"
  shows "g_at cols s c < INT_MAX"
    and "walk cols rows m k (0, 0) c \<Longrightarrow> g_at cols s c \<le> int k"
    and "passable cols rows m c dir \<Longrightarrow> (c, dir) \<notin> exc \<Longrightarrow>
         g_at cols s (neighbor c dir) \<le> g_at cols s c + 1"
  using assms unfolding inv_closed_def by blast+

lemma inv_gD:
  assumes "inv_g cols rows m s"
  shows "g_at cols s (0, 0) = 0" and "came_from s 0 = None"
    and "in_bounds cols rows c \<Longrightarrow> 0 \<le> g_at cols s c"
    and "in_bounds cols rows c \<Longrightarrow> g_at cols s c \<le> INT_MAX"
    and "in_bounds cols rows c \<Longrightarrow> g_at cols s c < INT_MAX \<Longrightarrow>
         walk cols rows m (nat (g_at cols s c)) (0, 0) c"
    and "in_bounds cols rows c \<Longrightarrow> g_at cols s c < INT_MAX \<Longrightarrow>
         g_at cols s c \<le> int (card (closed_cells cols rows s))"
  using assms unfolding inv_g_def by blast+

lemma inv_queueD:
  assumes "inv_queue \<alpha> cols rows m s" "n \<in># \<alpha> (open_set s)"
  shows "in_bounds cols rows (node_pos n)"
    and "h_cost n = heuristic cols rows (fst (node_pos n)) (snd (node_pos n))"
    and "0 \<le> g_cost n"
    and "walk cols rows m (nat (g_cost n)) (0, 0) (node_pos n)"
    and "g_at cols s (node_pos n) \<le> g_cost n"
    and "g_cost n \<le> int (card (closed_cells cols rows s))"
  using assms unfolding inv_queue_def by (simp_all add: node_pos_def)

lemma inv_openD:
  assumes "inv_open \<alpha> cols rows s" "in_bounds cols rows c" "\<not> closed_at cols s c"
    "g_at cols s c < INT_MAX"
  shows "\<exists>n. n \<in># \<alpha> (open_set s) \<and> node_pos n = c \<and> g_cost n = g_at cols s c"
  using assms unfolding inv_open_def by blast

lemma inv_backD:
  assumes "inv_back cols rows m s" "in_bounds cols rows c"
  shows "came_from s (index cols (fst c) (snd c)) = None \<Longrightarrow> c \<noteq> (0, 0) \<Longrightarrow>
         g_at cols s c = INT_MAX"
    and "came_from s (index cols (fst c) (snd c)) = Some p \<Longrightarrow>
         in_bounds cols rows p \<and> closed_at cols s p \<and> adjacent cols rows m p c \<and>
         g_at cols s c = g_at cols s p + 1 \<and> g_at cols s c < INT_MAX"
proof -
  from assms have *: "case came_from s (index cols (fst c) (snd c)) of
           None \<Rightarrow> c \<noteq> (0, 0) \<longrightarrow> g_at cols s c = INT_MAX
         | Some p \<Rightarrow> in_bounds cols rows p \<and> closed_at cols s p \<and> adjacent cols rows m p c \<and>
                     g_at cols s c = g_at cols s p + 1 \<and> g_at cols s c < INT_MAX"
    unfolding inv_back_def by blast
  show "came_from s (index cols (fst c) (snd c)) = None \<Longrightarrow> c \<noteq> (0, 0) \<Longrightarrow>
         g_at cols s c = INT_MAX"
    using * by simp
  show "came_from s (index cols (fst c) (snd c)) = Some p \<Longrightarrow>
         in_bounds cols rows p \<and> closed_at cols s p \<and> adjacent cols rows m p c \<and>
         g_at cols s c = g_at cols s p + 1 \<and> g_at cols s c < INT_MAX"
    using * by simp
qed

section \<open>The frontier separates the closed cells from the rest\<close>

lemma dims_ok_bounds:
  assumes "dims_ok cols rows"
  shows "0 < cols" "0 < rows" "cols * rows + 1 < INT_MAX"
    "in_bounds cols rows (0, 0)" "in_bounds cols rows (goal cols rows)"
proof -
  from assms show p: "0 < cols" "0 < rows" by (simp_all add: dims_ok_def)
  from assms have "(cols + 1) * (rows + 1) < INT_MAX" by (simp add: dims_ok_def)
  moreover have "(cols + 1) * (rows + 1) = cols * rows + cols + rows + 1" by (simp add: algebra_simps)
  ultimately show "cols * rows + 1 < INT_MAX" using p by linarith
  show "in_bounds cols rows (0, 0)" "in_bounds cols rows (goal cols rows)"
    using p by (simp_all add: in_bounds_def goal_def)
qed

lemma adjacent_in_bounds:
  assumes wf: "wf_maze cols rows m" and cb: "closed_boundary cols rows m"
    and a: "adjacent cols rows m a b"
  shows "in_bounds cols rows a" "in_bounds cols rows b"
proof -
  from a obtain dir where d: "passable cols rows m a dir" "neighbor a dir = b"
    by (auto simp: adjacent_def)
  from d(1) show a': "in_bounds cols rows a" by (simp add: passable_iff [OF wf])
  from d(1) have "removed cols m a dir" by (simp add: passable_iff [OF wf])
  with cb a' have "in_bounds cols rows (neighbor a dir)"
    unfolding closed_boundary_def by blast
  with d(2) show "in_bounds cols rows b" by simp
qed

lemma walk_in_bounds:
  assumes wf: "wf_maze cols rows m" and cb: "closed_boundary cols rows m"
  shows "walk cols rows m k a b \<Longrightarrow> in_bounds cols rows a \<Longrightarrow> in_bounds cols rows b"
proof (induction k arbitrary: b)
  case 0
  then show ?case by simp
next
  case (Suc k)
  from walk_last [OF Suc.prems(1)] obtain c where "adjacent cols rows m c b" by blast
  then show ?case by (rule adjacent_in_bounds(2) [OF wf cb])
qed

lemma frontier:
  assumes dims: "dims_ok cols rows" and wf: "wf_maze cols rows m"
    and cb: "closed_boundary cols rows m"
    and g: "inv_g cols rows m s" and cl: "inv_closed cols rows m {} s"
  shows "walk cols rows m k (0, 0) v \<Longrightarrow> \<not> closed_at cols s v \<Longrightarrow>
         \<exists>w j. in_bounds cols rows w \<and> \<not> closed_at cols s w \<and> g_at cols s w < INT_MAX \<and>
               walk cols rows m j w v \<and> g_at cols s w + int j \<le> int k"
proof (induction k arbitrary: v)
  case 0
  then have v: "v = (0, 0)" by simp
  have "g_at cols s (0, 0) = 0" by (rule inv_gD(1) [OF g])
  then have "in_bounds cols rows v \<and> \<not> closed_at cols s v \<and> g_at cols s v < INT_MAX \<and>
             walk cols rows m 0 v v \<and> g_at cols s v + int 0 \<le> int 0"
    using 0 v dims_ok_bounds(4) [OF dims] by (simp add: INT_MAX_def)
  then show ?case by blast
next
  case (Suc k)
  from walk_last [OF Suc.prems(1)] obtain c where c: "walk cols rows m k (0, 0) c"
    and a: "adjacent cols rows m c v" by blast
  note cb' = adjacent_in_bounds [OF wf cb a]
  show ?case
  proof (cases "closed_at cols s c")
    case True
    from a obtain dir where d: "passable cols rows m c dir" "neighbor c dir = v"
      by (auto simp: adjacent_def)
    have lt: "g_at cols s c < INT_MAX"
      and opt: "g_at cols s c \<le> int k"
      and rel: "g_at cols s (neighbor c dir) \<le> g_at cols s c + 1"
      using inv_closedD [OF cl cb'(1) True] c d(1) by simp_all
    from inv_gD(6) [OF g cb'(1) lt] have "g_at cols s c \<le> int (card (closed_cells cols rows s))" .
    with card_closed_cells_le [OF dims_ok_bounds(1,2) [OF dims], of s]
    have "g_at cols s c + 1 < INT_MAX" using dims_ok_bounds(3) [OF dims] by linarith
    with rel opt d(2) have "g_at cols s v < INT_MAX" "g_at cols s v + int 0 \<le> int (Suc k)"
      by simp_all
    with cb'(2) Suc.prems(2) have "in_bounds cols rows v \<and> \<not> closed_at cols s v \<and>
        g_at cols s v < INT_MAX \<and> walk cols rows m 0 v v \<and> g_at cols s v + int 0 \<le> int (Suc k)"
      by simp
    then show ?thesis by blast
  next
    case False
    from Suc.IH [OF c False] obtain w j where w: "in_bounds cols rows w" "\<not> closed_at cols s w"
      "g_at cols s w < INT_MAX" "walk cols rows m j w c" "g_at cols s w + int j \<le> int k"
      by blast
    from walk_snoc [OF w(4) a] have "walk cols rows m (Suc j) w v" .
    moreover from w(5) have "g_at cols s w + int (Suc j) \<le> int (Suc k)" by simp
    ultimately show ?thesis using w(1-3) by blast
  qed
qed

lemma pop_open:
  assumes dims: "dims_ok cols rows" and wf: "wf_maze cols rows m"
    and cb: "closed_boundary cols rows m"
    and pq: "pq_spec P \<alpha>"
    and inv: "astar_inv \<alpha> cols rows m {} s"
    and ne: "\<alpha> (open_set s) \<noteq> {#}"
    and un: "\<not> closed_at cols s (node_pos (pq_top P (open_set s)))"
  shows "g_cost (pq_top P (open_set s)) = g_at cols s (node_pos (pq_top P (open_set s)))"
    and "\<And>k. walk cols rows m k (0, 0) (node_pos (pq_top P (open_set s))) \<Longrightarrow>
           g_cost (pq_top P (open_set s)) \<le> int k"
proof -
  let ?cur = "pq_top P (open_set s)"
  let ?v = "node_pos ?cur"
  from inv have q: "inv_queue \<alpha> cols rows m s" and g: "inv_g cols rows m s"
    and op: "inv_open \<alpha> cols rows s" and cl: "inv_closed cols rows m {} s"
    by (simp_all add: astar_inv_def)
  from pq ne have mem: "?cur \<in># \<alpha> (open_set s)"
    and least: "\<And>n. n \<in># \<alpha> (open_set s) \<Longrightarrow> f_cost ?cur \<le> f_cost n"
    unfolding pq_spec_def by blast+
  note vb = inv_queueD(1) [OF q mem] and hc = inv_queueD(2) [OF q mem]
    and g0 = inv_queueD(3) [OF q mem] and wc = inv_queueD(4) [OF q mem]
    and gle = inv_queueD(5) [OF q mem] and gcard = inv_queueD(6) [OF q mem]
  show opt: "g_cost ?cur \<le> int k" if "walk cols rows m k (0, 0) ?v" for k
  proof -
    from frontier [OF dims wf cb g cl that un] obtain w j where
      w: "in_bounds cols rows w" "\<not> closed_at cols s w" "g_at cols s w < INT_MAX"
        "walk cols rows m j w ?v" "g_at cols s w + int j \<le> int k" by blast
    from inv_openD [OF op w(1-3)] obtain n where n: "n \<in># \<alpha> (open_set s)" "node_pos n = w"
      "g_cost n = g_at cols s w" by blast
    from inv_queueD(2) [OF q n(1)] n(2)
    have hn: "h_cost n = heuristic cols rows (fst w) (snd w)" by simp
    from heuristic_walk [OF w(4)]
    have "heuristic cols rows (fst w) (snd w) \<le> int j + heuristic cols rows (fst ?v) (snd ?v)" .
    with least [OF n(1)] hn hc n(3) w(5) show ?thesis by (simp add: f_cost_def)
  qed
  have "g_cost ?cur < INT_MAX"
    using gcard card_closed_cells_le [OF dims_ok_bounds(1,2) [OF dims], of s]
      dims_ok_bounds(3) [OF dims] by linarith
  with gle have lt: "g_at cols s ?v < INT_MAX" by simp
  note w = inv_gD(5) [OF g vb lt] and nn = inv_gD(3) [OF g vb]
  from opt [OF w] nn have "g_cost ?cur \<le> g_at cols s ?v" by simp
  with gle show "g_cost ?cur = g_at cols s ?v" by simp
qed

section \<open>The initial state\<close>

lemma astar_init_inv:
  assumes dims: "dims_ok cols rows" and pq: "pq_spec P \<alpha>"
    and s0_def: "s0 = (a_star_init P cols rows m)\<lparr> g_cost_v :=
      (g_cost_v (a_star_init P cols rows m))[nat (index cols 0 0) := 0] \<rparr>"
  shows "astar_inv \<alpha> cols rows m {} s0" and "\<not> closed_at cols s0 (goal cols rows)"
proof -
  note b = dims_ok_bounds [OF dims]
  let ?N = "nat (cols * rows)"
  let ?n0 = "\<lparr> node_x = 0, node_y = 0, g_cost = 0, h_cost = heuristic cols rows 0 0 \<rparr>"
  have N: "0 < ?N" using b(1,2) by simp
  have Q: "\<alpha> (open_set s0) = {#?n0#}"
    using pq by (simp add: s0_def a_star_init_def pq_spec_def)
  have G: "g_at cols s0 c = (if c = (0, 0) then 0 else INT_MAX)" if "in_bounds cols rows c" for c
  proof -
    have "nat (index cols (fst c) (snd c)) = 0 \<longleftrightarrow> c = (0, 0)"
      using cell_index_eq [OF that b(4)] by simp
    with cell_index_lt [OF that] N show ?thesis
      by (auto simp: g_at_def s0_def a_star_init_def)
  qed
  have C: "\<not> closed_at cols s0 c" if "in_bounds cols rows c" for c
    using cell_index_lt [OF that] by (simp add: closed_at_def s0_def a_star_init_def)
  have CC: "closed_cells cols rows s0 = {}" using C by (auto simp: closed_cells_def)
  have cf: "came_from s0 = Map.empty" by (simp add: s0_def a_star_init_def)
  have 1: "inv_shape cols rows m s0"
    by (simp add: inv_shape_def s0_def a_star_init_def)
  have 2: "inv_queue \<alpha> cols rows m s0"
    unfolding inv_queue_def Q using b(4) G [OF b(4)] by (simp add: node_pos_def)
  have 3: "inv_g cols rows m s0"
    unfolding inv_g_def
  proof (intro conjI allI impI)
    show "g_at cols s0 (0, 0) = 0" using G [OF b(4)] by simp
    show "came_from s0 0 = None" by (simp add: cf)
  next
    fix c assume c: "in_bounds cols rows c"
    show "0 \<le> g_at cols s0 c" "g_at cols s0 c \<le> INT_MAX"
      using G [OF c] by (simp_all add: INT_MAX_def)
    assume "g_at cols s0 c < INT_MAX"
    with G [OF c] have c0: "c = (0, 0)" by (simp split: if_splits)
    with G [OF c] show "walk cols rows m (nat (g_at cols s0 c)) (0, 0) c"
      "g_at cols s0 c \<le> int (card (closed_cells cols rows s0))" by simp_all
  qed
  have 4: "inv_back cols rows m s0"
    unfolding inv_back_def using G by (simp add: cf)
  have 5: "inv_open \<alpha> cols rows s0"
    unfolding inv_open_def Q
  proof (intro allI impI)
    fix c assume c: "in_bounds cols rows c \<and> \<not> closed_at cols s0 c \<and> g_at cols s0 c < INT_MAX"
    with G [of c] have c0: "c = (0, 0)" by (simp split: if_splits)
    with G [of c] c show "\<exists>n \<in># {#?n0#}. node_pos n = c \<and> g_cost n = g_at cols s0 c"
      by (simp add: node_pos_def)
  qed
  have 6: "inv_closed cols rows m {} s0"
    unfolding inv_closed_def using C by blast
  from 1 2 3 4 5 6 show "astar_inv \<alpha> cols rows m {} s0" by (simp add: astar_inv_def)
  show "\<not> closed_at cols s0 (goal cols rows)" by (rule C [OF b(5)])
qed

section \<open>Popping a node\<close>

lemma pop_closed_inv:
  assumes pq: "pq_spec P \<alpha>"
    and inv: "astar_inv \<alpha> cols rows m {} s"
    and ne: "\<alpha> (open_set s) \<noteq> {#}"
    and cl: "closed_at cols s (node_pos (pq_top P (open_set s)))"
  shows "astar_inv \<alpha> cols rows m {} (s\<lparr> open_set := pq_pop P (open_set s) \<rparr>)"
    and "astar_measure \<alpha> (s\<lparr> open_set := pq_pop P (open_set s) \<rparr>) < astar_measure \<alpha> s"
proof -
  let ?cur = "pq_top P (open_set s)"
  let ?s = "s\<lparr> open_set := pq_pop P (open_set s) \<rparr>"
  from inv have sh: "inv_shape cols rows m s" and q: "inv_queue \<alpha> cols rows m s"
    and g: "inv_g cols rows m s" and bk: "inv_back cols rows m s"
    and op: "inv_open \<alpha> cols rows s" and ic: "inv_closed cols rows m {} s"
    by (simp_all add: astar_inv_def)
  from pq ne have mem: "?cur \<in># \<alpha> (open_set s)"
    and Q: "\<alpha> (open_set ?s) = \<alpha> (open_set s) - {#?cur#}"
    unfolding pq_spec_def by simp_all
  have 1: "inv_shape cols rows m ?s" using sh by (simp add: inv_shape_def)
  have 2: "inv_queue \<alpha> cols rows m ?s"
    unfolding inv_queue_def Q using q unfolding inv_queue_def
    by (auto dest!: in_diffD)
  have 3: "inv_g cols rows m ?s" using g by (simp add: inv_g_def)
  have 4: "inv_back cols rows m ?s" using bk by (simp add: inv_back_def cong: option.case_cong)
  have 5: "inv_open \<alpha> cols rows ?s"
    unfolding inv_open_def Q
  proof (intro allI impI)
    fix c assume "in_bounds cols rows c \<and> \<not> closed_at cols ?s c \<and> g_at cols ?s c < INT_MAX"
    then have c: "in_bounds cols rows c" "\<not> closed_at cols s c" "g_at cols s c < INT_MAX"
      by simp_all
    from inv_openD [OF op c] obtain n where n: "n \<in># \<alpha> (open_set s)" "node_pos n = c"
      "g_cost n = g_at cols s c" by blast
    from n(2) c(2) cl have "n \<noteq> ?cur" by auto
    with n(1) have "n \<in># \<alpha> (open_set s) - {#?cur#}" by (simp add: in_diff_count)
    with n(2,3) show "\<exists>n \<in># \<alpha> (open_set s) - {#?cur#}. node_pos n = c \<and> g_cost n = g_at cols ?s c"
      by auto
  qed
  have 6: "inv_closed cols rows m {} ?s" using ic by (simp add: inv_closed_def)
  from 1 2 3 4 5 6 show "astar_inv \<alpha> cols rows m {} ?s" by (simp add: astar_inv_def)
  have "size (\<alpha> (open_set ?s)) < size (\<alpha> (open_set s))"
    unfolding Q using mem by (rule size_Diff1_less)
  then show "astar_measure \<alpha> ?s < astar_measure \<alpha> s" by (simp add: astar_measure_def)
qed

lemma close_inv:
  assumes dims: "dims_ok cols rows" and wf: "wf_maze cols rows m"
    and cb: "closed_boundary cols rows m" and pq: "pq_spec P \<alpha>"
    and inv: "astar_inv \<alpha> cols rows m {} s"
    and ne: "\<alpha> (open_set s) \<noteq> {#}"
    and un: "\<not> closed_at cols s (node_pos (pq_top P (open_set s)))"
    and s2: "s2 = s\<lparr> open_set := pq_pop P (open_set s),
        visited_v := (visited_v s)[nat (index cols (node_x (pq_top P (open_set s)))
                                               (node_y (pq_top P (open_set s)))) := True] \<rparr>"
  shows "astar_inv \<alpha> cols rows m ({node_pos (pq_top P (open_set s))} \<times> UNIV) s2"
    and "in_bounds cols rows (node_pos (pq_top P (open_set s)))"
    and "closed_at cols s2 (node_pos (pq_top P (open_set s)))"
    and "g_cost (pq_top P (open_set s)) = g_at cols s2 (node_pos (pq_top P (open_set s)))"
    and "g_cost (pq_top P (open_set s)) + 1 \<le> int (card (closed_cells cols rows s2))"
    and "astar_measure \<alpha> s2 < astar_measure \<alpha> s"
    and "\<And>c. in_bounds cols rows c \<Longrightarrow>
           closed_at cols s2 c = (c = node_pos (pq_top P (open_set s)) \<or> closed_at cols s c)"
proof -
  let ?cur = "pq_top P (open_set s)"
  let ?v = "node_pos ?cur"
  from inv have sh: "inv_shape cols rows m s" and q: "inv_queue \<alpha> cols rows m s"
    and g: "inv_g cols rows m s" and bk: "inv_back cols rows m s"
    and op: "inv_open \<alpha> cols rows s" and ic: "inv_closed cols rows m {} s"
    by (simp_all add: astar_inv_def)
  from pq ne have mem: "?cur \<in># \<alpha> (open_set s)"
    and Q: "\<alpha> (open_set s2) = \<alpha> (open_set s) - {#?cur#}"
    unfolding pq_spec_def s2 by simp_all
  note vb = inv_queueD(1) [OF q mem] and gcard = inv_queueD(6) [OF q mem]
  note key = pop_open [OF dims wf cb pq inv ne un]
  show "in_bounds cols rows ?v" by (rule vb)
  have len: "length (visited_v s) = nat (cols * rows)" using sh by (simp add: inv_shape_def)
  have G: "g_at cols s2 = g_at cols s" by (simp add: s2 g_at_def fun_eq_iff)
  have cf: "came_from s2 = came_from s" by (simp add: s2)
  show C: "closed_at cols s2 c = (c = ?v \<or> closed_at cols s c)" if "in_bounds cols rows c" for c
  proof -
    have "closed_at cols s2 c = closed_at cols
        (s\<lparr> visited_v := (visited_v s)[nat (index cols (fst ?v) (snd ?v)) := True] \<rparr>) c"
      by (simp add: s2 closed_at_def node_pos_def)
    then show ?thesis using closed_at_update [OF len vb that, of True] by simp
  qed
  have CC: "closed_cells cols rows s2 = insert ?v (closed_cells cols rows s)"
  proof (rule set_eqI)
    fix c show "c \<in> closed_cells cols rows s2 \<longleftrightarrow> c \<in> insert ?v (closed_cells cols rows s)"
      using C [of c] vb by (auto simp: closed_cells_def)
  qed
  have vn: "?v \<notin> closed_cells cols rows s" using un by (simp add: closed_cells_def)
  have card: "card (closed_cells cols rows s2) = Suc (card (closed_cells cols rows s))"
    unfolding CC by (rule card_insert_disjoint [OF finite_closed_cells vn])
  show "closed_at cols s2 ?v" using C [OF vb] by simp
  show "g_cost ?cur = g_at cols s2 ?v" using key(1) by (simp add: G)
  show "g_cost ?cur + 1 \<le> int (card (closed_cells cols rows s2))"
    using gcard by (simp add: card)
  have "size (\<alpha> (open_set s2)) < size (\<alpha> (open_set s))"
    unfolding Q using mem by (rule size_Diff1_less)
  moreover have "g_cost_v s2 = g_cost_v s" by (simp add: s2)
  ultimately show "astar_measure \<alpha> s2 < astar_measure \<alpha> s" by (simp add: astar_measure_def)
  have 1: "inv_shape cols rows m s2" using sh by (simp add: inv_shape_def s2)
  have 2: "inv_queue \<alpha> cols rows m s2"
    unfolding inv_queue_def Q G card
  proof
    fix n assume "n \<in># \<alpha> (open_set s) - {#?cur#}"
    then have n: "n \<in># \<alpha> (open_set s)" by (rule in_diffD)
    from inv_queueD [OF q n]
    show "in_bounds cols rows (node_pos n) \<and>
        h_cost n = heuristic cols rows (node_x n) (node_y n) \<and>
        0 \<le> g_cost n \<and> walk cols rows m (nat (g_cost n)) (0, 0) (node_pos n) \<and>
        g_at cols s (node_pos n) \<le> g_cost n \<and>
        g_cost n \<le> int (Suc (card (closed_cells cols rows s)))"
      by (simp add: node_pos_def)
  qed
  have 3: "inv_g cols rows m s2"
    unfolding inv_g_def G cf card
  proof (intro conjI allI impI)
    show "g_at cols s (0, 0) = 0" by (rule inv_gD(1) [OF g])
    show "came_from s 0 = None" by (rule inv_gD(2) [OF g])
  next
    fix c assume c: "in_bounds cols rows c"
    show "0 \<le> g_at cols s c" by (rule inv_gD(3) [OF g c])
    show "g_at cols s c \<le> INT_MAX" by (rule inv_gD(4) [OF g c])
    assume lt: "g_at cols s c < INT_MAX"
    show "walk cols rows m (nat (g_at cols s c)) (0, 0) c" by (rule inv_gD(5) [OF g c lt])
    show "g_at cols s c \<le> int (Suc (card (closed_cells cols rows s)))"
      using inv_gD(6) [OF g c lt] by simp
  qed
  have 4: "inv_back cols rows m s2"
    unfolding inv_back_def G cf
  proof (intro allI impI)
    fix c assume c: "in_bounds cols rows c"
    show "case came_from s (index cols (fst c) (snd c)) of
           None \<Rightarrow> c \<noteq> (0, 0) \<longrightarrow> g_at cols s c = INT_MAX
         | Some p \<Rightarrow> in_bounds cols rows p \<and> closed_at cols s2 p \<and> adjacent cols rows m p c \<and>
                     g_at cols s c = g_at cols s p + 1 \<and> g_at cols s c < INT_MAX"
    proof (cases "came_from s (index cols (fst c) (snd c))")
      case None
      with inv_backD(1) [OF bk c] show ?thesis by simp
    next
      case (Some p)
      from inv_backD(2) [OF bk c Some] C [of p] Some show ?thesis by simp
    qed
  qed
  have 5: "inv_open \<alpha> cols rows s2"
    unfolding inv_open_def Q G
  proof (intro allI impI)
    fix c assume a: "in_bounds cols rows c \<and> \<not> closed_at cols s2 c \<and> g_at cols s c < INT_MAX"
    then have c: "in_bounds cols rows c" "\<not> closed_at cols s c" "g_at cols s c < INT_MAX"
      and cv: "c \<noteq> ?v"
      using C [of c] by auto
    from inv_openD [OF op c] obtain n where n: "n \<in># \<alpha> (open_set s)" "node_pos n = c"
      "g_cost n = g_at cols s c" by blast
    from n(2) cv have "n \<noteq> ?cur" by auto
    with n(1) have "n \<in># \<alpha> (open_set s) - {#?cur#}" by (simp add: in_diff_count)
    with n(2,3) show "\<exists>n \<in># \<alpha> (open_set s) - {#?cur#}. node_pos n = c \<and> g_cost n = g_at cols s c"
      by auto
  qed
  have vlt: "g_at cols s ?v < INT_MAX"
    using key(1) gcard card_closed_cells_le [OF dims_ok_bounds(1,2) [OF dims], of s]
      dims_ok_bounds(3) [OF dims] by linarith
  have 6: "inv_closed cols rows m ({?v} \<times> UNIV) s2"
    unfolding inv_closed_def G
  proof (intro allI impI conjI)
    fix c assume a: "in_bounds cols rows c \<and> closed_at cols s2 c"
    then have c: "in_bounds cols rows c" and cc: "c = ?v \<or> closed_at cols s c"
      using C [of c] by auto
    show "g_at cols s c < INT_MAX"
      using cc vlt inv_closedD(1) [OF ic c] by blast
    show "g_at cols s c \<le> int k" if "walk cols rows m k (0, 0) c" for k
      using cc key(1) key(2) [of k] inv_closedD(2) [OF ic c _ that] that by auto
    show "g_at cols s (neighbor c dir) \<le> g_at cols s c + 1"
      if "passable cols rows m c dir \<and> (c, dir) \<notin> {?v} \<times> UNIV" for dir
      using cc that inv_closedD(3) [OF ic c, of dir] by auto
  qed
  from 1 2 3 4 5 6 show "astar_inv \<alpha> cols rows m ({?v} \<times> UNIV) s2" by (simp add: astar_inv_def)
qed

section \<open>Expanding a closed cell\<close>

lemma sum_list_nat_update_less:
  assumes "i < length xs" "0 \<le> v" "v < xs ! i"
  shows "sum_list (map nat (xs[i := v])) < sum_list (map nat xs)"
proof -
  let ?ys = "map nat xs"
  have i: "i < length ?ys" using assms(1) by simp
  have lt: "nat v < ?ys ! i" using assms by simp
  have "sum_list (map nat (xs[i := v])) = sum_list (?ys[i := nat v])" by (simp add: map_update)
  also have "\<dots> = sum_list ?ys + nat v - ?ys ! i" by (rule sum_list_update [OF i])
  also have "\<dots> < sum_list ?ys" using lt elem_le_sum_list [OF i] by linarith
  finally show ?thesis .
qed

lemma inv_closed_skip:
  assumes ic: "inv_closed cols rows m ({v} \<times> insert d D) s"
    and ok: "passable cols rows m v d \<Longrightarrow> g_at cols s (neighbor v d) \<le> g_at cols s v + 1"
  shows "inv_closed cols rows m ({v} \<times> D) s"
  unfolding inv_closed_def
proof (intro allI impI conjI)
  fix c assume a: "in_bounds cols rows c \<and> closed_at cols s c"
  then have c: "in_bounds cols rows c" "closed_at cols s c" by simp_all
  show "g_at cols s c < INT_MAX" by (rule inv_closedD(1) [OF ic c])
  show "g_at cols s c \<le> int k" if "walk cols rows m k (0, 0) c" for k
    by (rule inv_closedD(2) [OF ic c that])
  show "g_at cols s (neighbor c dir) \<le> g_at cols s c + 1"
    if "passable cols rows m c dir \<and> (c, dir) \<notin> {v} \<times> D" for dir
  proof (cases "c = v \<and> dir = d")
    case True
    with that ok show ?thesis by simp
  next
    case False
    with that have "(c, dir) \<notin> {v} \<times> insert d D" by auto
    with that inv_closedD(3) [OF ic c] show ?thesis by blast
  qed
qed

lemma expand_push_inv:
  assumes dims: "dims_ok cols rows" and wf: "wf_maze cols rows m"
    and cb: "closed_boundary cols rows m" and pq: "pq_spec P \<alpha>"
    and inv: "astar_inv \<alpha> cols rows m ({v} \<times> insert d D) s"
    and vb: "in_bounds cols rows v" and vc: "closed_at cols s v"
    and gv: "g_cost cur = g_at cols s v"
    and gc: "g_cost cur + 1 \<le> int (card (closed_cells cols rows s))"
    and pass: "passable cols rows m v d"
    and lt: "g_cost cur + 1 < g_at cols s (neighbor v d)"
    and s': "s' = s\<lparr> g_cost_v := (g_cost_v s)[nat (index cols (fst (neighbor v d)) (snd (neighbor v d)))
                          := g_cost cur + 1],
                    came_from := (came_from s)(index cols (fst (neighbor v d)) (snd (neighbor v d)) \<mapsto> v),
                    open_set := pq_push P \<lparr> node_x = fst (neighbor v d), node_y = snd (neighbor v d),
                        g_cost = g_cost cur + 1,
                        h_cost = heuristic cols rows (fst (neighbor v d)) (snd (neighbor v d)) \<rparr>
                      (open_set s) \<rparr>"
  shows "astar_inv \<alpha> cols rows m ({v} \<times> D) s'"
    and "visited_v s' = visited_v s" and "g_at cols s' v = g_at cols s v"
    and "astar_measure \<alpha> s' < astar_measure \<alpha> s"
proof -
  let ?n = "neighbor v d"
  let ?g = "g_cost cur + 1"
  let ?node = "\<lparr> node_x = fst ?n, node_y = snd ?n, g_cost = ?g,
                  h_cost = heuristic cols rows (fst ?n) (snd ?n) \<rparr>"
  from inv have sh: "inv_shape cols rows m s" and q: "inv_queue \<alpha> cols rows m s"
    and g: "inv_g cols rows m s" and bk: "inv_back cols rows m s"
    and op: "inv_open \<alpha> cols rows s" and ic: "inv_closed cols rows m ({v} \<times> insert d D) s"
    by (simp_all add: astar_inv_def)
  have adj: "adjacent cols rows m v ?n" using pass by (auto simp: adjacent_def)
  note nb = adjacent_in_bounds(2) [OF wf cb adj]
  have len: "length (g_cost_v s) = nat (cols * rows)" using sh by (simp add: inv_shape_def)
  note vlt = inv_closedD(1) [OF ic vb vc]
  note v0 = inv_gD(3) [OF g vb]
  have wv: "walk cols rows m (nat (g_at cols s v)) (0, 0) v" by (rule inv_gD(5) [OF g vb vlt])
  have wn: "walk cols rows m (nat ?g) (0, 0) ?n"
  proof -
    have "nat ?g = Suc (nat (g_at cols s v))" using v0 gv by simp
    with walk_snoc [OF wv adj] show ?thesis by simp
  qed
  have n0: "?n \<noteq> (0, 0)"
  proof
    assume "?n = (0, 0)"
    with lt inv_gD(1) [OF g] v0 gv show False by simp
  qed
  have nc: "\<not> closed_at cols s ?n"
  proof
    assume "closed_at cols s ?n"
    from inv_closedD(2) [OF ic nb this wn] lt v0 gv show False by simp
  qed
  have nv: "?n \<noteq> v" by simp
  have Q: "\<alpha> (open_set s') = add_mset ?node (\<alpha> (open_set s))"
    using pq by (simp add: s' pq_spec_def)
  have G: "g_at cols s' c = (if c = ?n then ?g else g_at cols s c)" if "in_bounds cols rows c" for c
  proof -
    have "g_at cols s' c = g_at cols (s\<lparr> g_cost_v :=
        (g_cost_v s)[nat (index cols (fst ?n) (snd ?n)) := ?g] \<rparr>) c"
      by (simp add: s' g_at_def)
    then show ?thesis using g_at_update [OF len nb that, of ?g] by simp
  qed
  have Gle: "g_at cols s' c \<le> g_at cols s c" if "in_bounds cols rows c" for c
    using G [OF that] lt by simp
  have C: "closed_at cols s' = closed_at cols s" by (simp add: s' closed_at_def fun_eq_iff)
  have CC: "closed_cells cols rows s' = closed_cells cols rows s" by (simp add: closed_cells_def C)
  have cf: "came_from s' (index cols (fst c) (snd c))
      = (if c = ?n then Some v else came_from s (index cols (fst c) (snd c)))"
    if "in_bounds cols rows c" for c
    using cell_index_eq_int [OF that nb] by (simp add: s')
  show "visited_v s' = visited_v s" by (simp add: s')
  show "g_at cols s' v = g_at cols s v" using G [OF vb] nv by simp
  have "sum_list (map nat (g_cost_v s')) < sum_list (map nat (g_cost_v s))"
  proof -
    have i: "nat (index cols (fst ?n) (snd ?n)) < length (g_cost_v s)"
      using cell_index_lt [OF nb] len by simp
    have "0 \<le> ?g" using v0 gv by simp
    moreover have "?g < g_cost_v s ! nat (index cols (fst ?n) (snd ?n))"
      using lt by (simp add: g_at_def)
    ultimately show ?thesis
      using sum_list_nat_update_less [OF i] by (simp add: s')
  qed
  then show "astar_measure \<alpha> s' < astar_measure \<alpha> s"
    by (simp add: astar_measure_def Q)
  have 1: "inv_shape cols rows m s'" using sh by (simp add: inv_shape_def s')
  have 2: "inv_queue \<alpha> cols rows m s'"
    unfolding inv_queue_def Q CC
  proof
    fix n assume "n \<in># add_mset ?node (\<alpha> (open_set s))"
    then have "n = ?node \<or> n \<in># \<alpha> (open_set s)" by simp
    then show "in_bounds cols rows (node_pos n) \<and>
        h_cost n = heuristic cols rows (node_x n) (node_y n) \<and>
        0 \<le> g_cost n \<and> walk cols rows m (nat (g_cost n)) (0, 0) (node_pos n) \<and>
        g_at cols s' (node_pos n) \<le> g_cost n \<and>
        g_cost n \<le> int (card (closed_cells cols rows s))"
    proof
      assume n: "n = ?node"
      then have "node_pos n = ?n" by (simp add: node_pos_def)
      with n nb wn gc G [OF nb] v0 gv show ?thesis by simp
    next
      assume n: "n \<in># \<alpha> (open_set s)"
      from inv_queueD [OF q n] Gle [OF inv_queueD(1) [OF q n]]
      show ?thesis by (simp add: node_pos_def)
    qed
  qed
  have 3: "inv_g cols rows m s'"
    unfolding inv_g_def CC
  proof (intro conjI allI impI)
    show "g_at cols s' (0, 0) = 0"
      using G [OF dims_ok_bounds(4) [OF dims]] n0 inv_gD(1) [OF g] by auto
    show "came_from s' 0 = None"
      using cf [OF dims_ok_bounds(4) [OF dims]] n0 inv_gD(2) [OF g] by auto
  next
    fix c assume c: "in_bounds cols rows c"
    show "0 \<le> g_at cols s' c" using G [OF c] inv_gD(3) [OF g c] v0 gv by simp
    show "g_at cols s' c \<le> INT_MAX" using Gle [OF c] inv_gD(4) [OF g c] by simp
    assume l: "g_at cols s' c < INT_MAX"
    show "walk cols rows m (nat (g_at cols s' c)) (0, 0) c"
      using G [OF c] wn l inv_gD(5) [OF g c] by (cases "c = ?n") simp_all
    show "g_at cols s' c \<le> int (card (closed_cells cols rows s))"
      using G [OF c] gc l inv_gD(6) [OF g c] by (cases "c = ?n") simp_all
  qed
  have 4: "inv_back cols rows m s'"
    unfolding inv_back_def C
  proof (intro allI impI)
    fix c assume c: "in_bounds cols rows c"
    show "case came_from s' (index cols (fst c) (snd c)) of
           None \<Rightarrow> c \<noteq> (0, 0) \<longrightarrow> g_at cols s' c = INT_MAX
         | Some p \<Rightarrow> in_bounds cols rows p \<and> closed_at cols s p \<and> adjacent cols rows m p c \<and>
                     g_at cols s' c = g_at cols s' p + 1 \<and> g_at cols s' c < INT_MAX"
    proof (cases "c = ?n")
      case True
      have "?g < INT_MAX" using lt inv_gD(4) [OF g nb] by simp
      with True vb vc adj G [OF nb] G [OF vb] nv gv show ?thesis
        by (simp add: cf [OF nb])
    next
      case False
      show ?thesis
      proof (cases "came_from s (index cols (fst c) (snd c))")
        case None
        with False inv_backD(1) [OF bk c] G [OF c] show ?thesis by (simp add: cf [OF c])
      next
        case (Some p)
        note p = inv_backD(2) [OF bk c Some]
        then have "p \<noteq> ?n" using nc by auto
        with p False Some G [OF c] G [of p] show ?thesis by (simp add: cf [OF c])
      qed
    qed
  qed
  have 5: "inv_open \<alpha> cols rows s'"
    unfolding inv_open_def Q C
  proof (intro allI impI)
    fix c assume a: "in_bounds cols rows c \<and> \<not> closed_at cols s c \<and> g_at cols s' c < INT_MAX"
    then have c: "in_bounds cols rows c" "\<not> closed_at cols s c" by simp_all
    show "\<exists>n \<in># add_mset ?node (\<alpha> (open_set s)). node_pos n = c \<and> g_cost n = g_at cols s' c"
    proof (cases "c = ?n")
      case True
      then have "node_pos ?node = c" "g_cost ?node = g_at cols s' c"
        using G [OF c(1)] by (simp_all add: node_pos_def)
      moreover have "?node \<in># add_mset ?node (\<alpha> (open_set s))" by simp
      ultimately show ?thesis by blast
    next
      case False
      with a G [OF c(1)] have "g_at cols s c < INT_MAX" by simp
      from inv_openD [OF op c this] obtain n where "n \<in># \<alpha> (open_set s)" "node_pos n = c"
        "g_cost n = g_at cols s c" by blast
      with False G [OF c(1)] have "n \<in># add_mset ?node (\<alpha> (open_set s))" "node_pos n = c"
        "g_cost n = g_at cols s' c" by simp_all
      then show ?thesis by blast
    qed
  qed
  have 6: "inv_closed cols rows m ({v} \<times> D) s'"
    unfolding inv_closed_def C
  proof (intro allI impI conjI)
    fix c assume a: "in_bounds cols rows c \<and> closed_at cols s c"
    then have c: "in_bounds cols rows c" "closed_at cols s c" by simp_all
    then have cn: "c \<noteq> ?n" using nc by auto
    then have Gc: "g_at cols s' c = g_at cols s c" using G [OF c(1)] by simp
    show "g_at cols s' c < INT_MAX" using inv_closedD(1) [OF ic c] Gc by simp
    show "g_at cols s' c \<le> int k" if "walk cols rows m k (0, 0) c" for k
      using inv_closedD(2) [OF ic c that] Gc by simp
    show "g_at cols s' (neighbor c dir) \<le> g_at cols s' c + 1"
      if p: "passable cols rows m c dir \<and> (c, dir) \<notin> {v} \<times> D" for dir
    proof -
      have "adjacent cols rows m c (neighbor c dir)" using p by (auto simp: adjacent_def)
      note b = adjacent_in_bounds(2) [OF wf cb this]
      show ?thesis
      proof (cases "c = v \<and> dir = d")
        case True
        with G [OF nb] Gc gv show ?thesis by simp
      next
        case False
        with p have "(c, dir) \<notin> {v} \<times> insert d D" by auto
        with p inv_closedD(3) [OF ic c] have "g_at cols s (neighbor c dir) \<le> g_at cols s c + 1"
          by blast
        with Gle [OF b] Gc show ?thesis by simp
      qed
    qed
  qed
  from 1 2 3 4 5 6 show "astar_inv \<alpha> cols rows m ({v} \<times> D) s'" by (simp add: astar_inv_def)
qed

lemma is_walkable_passable:
  assumes "wf_maze cols rows m" "in_bounds cols rows c"
  shows "is_walkable cols rows m (fst c) (snd c) dir = Inr (passable cols rows m c dir)"
proof -
  have "valid_index (maze m) (snd c * cols + fst c)" by (rule valid_index_cell [OF assms])
  with assms(2) show ?thesis
    by (auto simp: passable_def is_walkable_def in_bounds_def)
qed

lemma expand_Cons:
  assumes wf: "wf_maze cols rows m" and cb: "closed_boundary cols rows m"
    and sh: "inv_shape cols rows m s" and vb: "in_bounds cols rows (node_pos cur)"
  shows "expand P cols rows cur (d # ds) s =
    (if \<not> passable cols rows m (node_pos cur) d then expand P cols rows cur ds s
     else if g_cost cur + 1 < g_at cols s (neighbor (node_pos cur) d) then
       expand P cols rows cur ds
         (s\<lparr> g_cost_v := (g_cost_v s)[nat (index cols (fst (neighbor (node_pos cur) d))
                                                   (snd (neighbor (node_pos cur) d))) := g_cost cur + 1],
             came_from := (came_from s)(index cols (fst (neighbor (node_pos cur) d))
                                                 (snd (neighbor (node_pos cur) d)) \<mapsto> node_pos cur),
             open_set := pq_push P \<lparr> node_x = fst (neighbor (node_pos cur) d),
                 node_y = snd (neighbor (node_pos cur) d), g_cost = g_cost cur + 1,
                 h_cost = heuristic cols rows (fst (neighbor (node_pos cur) d))
                            (snd (neighbor (node_pos cur) d)) \<rparr> (open_set s) \<rparr>)
     else expand P cols rows cur ds s)"
proof -
  let ?v = "node_pos cur"
  from sh have mr: "maze_ref s = m" and len: "length (g_cost_v s) = nat (cols * rows)"
    by (simp_all add: inv_shape_def)
  have w: "is_walkable cols rows m (node_x cur) (node_y cur) d = Inr (passable cols rows m ?v d)"
    using is_walkable_passable [OF wf vb, of d] by (simp add: node_pos_def)
  show ?thesis
  proof (cases "passable cols rows m ?v d")
    case False
    then show ?thesis by (simp add: mr w Let_def)
  next
    case True
    then have "adjacent cols rows m ?v (neighbor ?v d)" by (auto simp: adjacent_def)
    note nb = adjacent_in_bounds(2) [OF wf cb this]
    have "valid_index (g_cost_v s) (index cols (fst (neighbor ?v d)) (snd (neighbor ?v d)))"
      using index_in_range [OF nb] len by (simp add: valid_index_def)
    then have "valid_index (g_cost_v s) (index cols (next_x (node_x cur) d) (next_y (node_y cur) d))"
      by (simp add: neighbor_def node_pos_def)
    then show ?thesis
      using True by (simp add: mr w Let_def neighbor_def g_at_def node_pos_def)
  qed
qed

lemma expand_inv:
  assumes dims: "dims_ok cols rows" and wf: "wf_maze cols rows m"
    and cb: "closed_boundary cols rows m" and pq: "pq_spec P \<alpha>"
    and vb: "in_bounds cols rows (node_pos cur)"
  shows "astar_inv \<alpha> cols rows m ({node_pos cur} \<times> set ds) s \<Longrightarrow>
         closed_at cols s (node_pos cur) \<Longrightarrow> g_cost cur = g_at cols s (node_pos cur) \<Longrightarrow>
         g_cost cur + 1 \<le> int (card (closed_cells cols rows s)) \<Longrightarrow>
         \<exists>s'. expand P cols rows cur ds s = Inr s' \<and> astar_inv \<alpha> cols rows m {} s' \<and>
              astar_measure \<alpha> s' \<le> astar_measure \<alpha> s \<and> visited_v s' = visited_v s"
proof (induction ds arbitrary: s)
  case Nil
  then show ?case by simp
next
  case (Cons d ds)
  let ?v = "node_pos cur"
  let ?n = "neighbor ?v d"
  from Cons.prems(1) have inv: "astar_inv \<alpha> cols rows m ({?v} \<times> insert d (set ds)) s" by simp
  then have sh: "inv_shape cols rows m s" and q: "inv_queue \<alpha> cols rows m s"
    and g: "inv_g cols rows m s" and bk: "inv_back cols rows m s"
    and op: "inv_open \<alpha> cols rows s"
    and ic: "inv_closed cols rows m ({?v} \<times> insert d (set ds)) s"
    by (simp_all add: astar_inv_def)
  note unf = expand_Cons [OF wf cb sh vb, of P d ds]
  show ?case
  proof (cases "passable cols rows m ?v d \<and> g_cost cur + 1 < g_at cols s ?n")
    case True
    let ?s1 = "s\<lparr> g_cost_v := (g_cost_v s)[nat (index cols (fst ?n) (snd ?n)) := g_cost cur + 1],
             came_from := (came_from s)(index cols (fst ?n) (snd ?n) \<mapsto> ?v),
             open_set := pq_push P \<lparr> node_x = fst ?n, node_y = snd ?n, g_cost = g_cost cur + 1,
                 h_cost = heuristic cols rows (fst ?n) (snd ?n) \<rparr> (open_set s) \<rparr>"
    from True have pass: "passable cols rows m ?v d" and lt: "g_cost cur + 1 < g_at cols s ?n"
      by simp_all
    note st = expand_push_inv [OF dims wf cb pq inv vb Cons.prems(2,3,4) pass lt refl]
    have c1: "closed_at cols ?s1 ?v" using Cons.prems(2) by (simp add: closed_at_def)
    have g1: "g_cost cur = g_at cols ?s1 ?v" using st(3) Cons.prems(3) by simp
    have k1: "g_cost cur + 1 \<le> int (card (closed_cells cols rows ?s1))"
      using Cons.prems(4) by (simp add: closed_cells_def closed_at_def)
    from Cons.IH [OF st(1) c1 g1 k1] obtain s' where
      s': "expand P cols rows cur ds ?s1 = Inr s'" "astar_inv \<alpha> cols rows m {} s'"
        "astar_measure \<alpha> s' \<le> astar_measure \<alpha> ?s1" "visited_v s' = visited_v ?s1" by blast
    have "expand P cols rows cur (d # ds) s = Inr s'"
      unfolding unf using True s'(1) by simp
    moreover have "astar_measure \<alpha> s' \<le> astar_measure \<alpha> s" using s'(3) st(4) by simp
    moreover have "visited_v s' = visited_v s" using s'(4) by simp
    ultimately show ?thesis using s'(2) by blast
  next
    case False
    then have ok: "passable cols rows m ?v d \<Longrightarrow> g_at cols s ?n \<le> g_at cols s ?v + 1"
      using Cons.prems(3) by auto
    have "inv_closed cols rows m ({?v} \<times> set ds) s" by (rule inv_closed_skip [OF ic ok])
    with sh q g bk op have "astar_inv \<alpha> cols rows m ({?v} \<times> set ds) s"
      by (simp add: astar_inv_def)
    from Cons.IH [OF this Cons.prems(2,3,4)] obtain s' where
      s': "expand P cols rows cur ds s = Inr s'" "astar_inv \<alpha> cols rows m {} s'"
        "astar_measure \<alpha> s' \<le> astar_measure \<alpha> s" "visited_v s' = visited_v s" by blast
    have "expand P cols rows cur (d # ds) s = Inr s'"
      unfolding unf using False s'(1) by auto
    with s'(2-4) show ?thesis by blast
  qed
qed

section \<open>Following the back-pointers\<close>

lemma path_steps_snoc:
  "p \<noteq> [] \<Longrightarrow> path_steps cols rows m (p @ [b])
     = (path_steps cols rows m p \<and> adjacent cols rows m (last p) b)"
proof (induction p rule: induct_list012)
  case 1
  then show ?case by simp
next
  case (2 a)
  then show ?case by simp
next
  case (3 a c p)
  then show ?case by simp
qed

lemma reconstruct_path:
  assumes g: "inv_g cols rows m s" and bk: "inv_back cols rows m s"
  shows "in_bounds cols rows at \<Longrightarrow> g_at cols s at < INT_MAX \<Longrightarrow>
    \<exists>chain. reconstruct cols (came_from s) at acc = Some (acc @ chain) \<and>
       length chain = nat (g_at cols s at) \<and>
       last ((0, 0) # rev chain) = at \<and>
       path_steps cols rows m ((0, 0) # rev chain) \<and>
       map (g_at cols s) ((0, 0) # rev chain) = map int [0..<Suc (nat (g_at cols s at))]"
proof (induction "nat (g_at cols s at)" arbitrary: at acc rule: less_induct)
  case less
  show ?case
  proof (cases "came_from s (index cols (fst at) (snd at))")
    case None
    have at0: "at = (0, 0)"
    proof (rule ccontr)
      assume "at \<noteq> (0, 0)"
      from inv_backD(1) [OF bk less.prems(1) None this] less.prems(2) show False by simp
    qed
    have g0: "g_at cols s at = 0" using inv_gD(1) [OF g] at0 by simp
    have "reconstruct cols (came_from s) at acc = Some (acc @ [])"
      by (subst reconstruct.simps) (simp add: None)
    moreover have "length ([] :: (int \<times> int) list) = nat (g_at cols s at)" using g0 by simp
    moreover have "last ((0, 0) # rev []) = at" using at0 by simp
    moreover have "path_steps cols rows m ((0, 0) # rev [])" by simp
    moreover have "map (g_at cols s) ((0, 0) # rev []) = map int [0..<Suc (nat (g_at cols s at))]"
      using g0 inv_gD(1) [OF g] by simp
    ultimately show ?thesis by blast
  next
    case (Some prev)
    from inv_backD(2) [OF bk less.prems(1) Some]
    have pb: "in_bounds cols rows prev" and adj: "adjacent cols rows m prev at"
      and ge: "g_at cols s at = g_at cols s prev + 1" by simp_all
    note p0 = inv_gD(3) [OF g pb]
    have plt: "g_at cols s prev < INT_MAX" using ge less.prems(2) by simp
    have dec: "nat (g_at cols s prev) < nat (g_at cols s at)" using ge p0 by simp
    from less.hyps [OF dec pb plt, of "acc @ [at]"] obtain chain where
      r: "reconstruct cols (came_from s) prev (acc @ [at]) = Some ((acc @ [at]) @ chain)"
      and l: "length chain = nat (g_at cols s prev)"
      and la: "last ((0, 0) # rev chain) = prev"
      and ps: "path_steps cols rows m ((0, 0) # rev chain)"
      and gm: "map (g_at cols s) ((0, 0) # rev chain) = map int [0..<Suc (nat (g_at cols s prev))]"
      by blast
    let ?p = "(0, 0) # rev chain"
    have e: "(0, 0) # rev (at # chain) = ?p @ [at]" by simp
    have 1: "reconstruct cols (came_from s) at acc = Some (acc @ (at # chain))"
      by (subst reconstruct.simps) (simp add: Some r)
    have 2: "length (at # chain) = nat (g_at cols s at)" using l ge p0 by simp
    have 3: "last ((0, 0) # rev (at # chain)) = at" by simp
    have 4: "path_steps cols rows m ((0, 0) # rev (at # chain))"
      unfolding e using ps adj la by (simp only: path_steps_snoc [of ?p] list.distinct simp_thms)
    have n: "Suc (nat (g_at cols s at)) = Suc (Suc (nat (g_at cols s prev)))" using ge p0 by simp
    have ga: "g_at cols s at = int (Suc (nat (g_at cols s prev)))" using ge p0 by simp
    have 5: "map (g_at cols s) ((0, 0) # rev (at # chain)) = map int [0..<Suc (nat (g_at cols s at))]"
      unfolding e n using gm ga by (simp del: upt_Suc add: upt_Suc_append)
    from 1 2 3 4 5 show ?thesis by blast
  qed
qed

section \<open>An empty frontier\<close>

lemma empty_unreachable:
  assumes dims: "dims_ok cols rows" and wf: "wf_maze cols rows m"
    and cb: "closed_boundary cols rows m"
    and inv: "astar_inv \<alpha> cols rows m {} s"
    and em: "\<alpha> (open_set s) = {#}"
    and un: "\<not> closed_at cols s (goal cols rows)"
  shows "\<not> reachable cols rows m (0, 0) (goal cols rows)"
proof
  assume "reachable cols rows m (0, 0) (goal cols rows)"
  then obtain k where k: "walk cols rows m k (0, 0) (goal cols rows)" by (auto simp: reachable_def)
  from inv have g: "inv_g cols rows m s" and op: "inv_open \<alpha> cols rows s"
    and ic: "inv_closed cols rows m {} s" by (simp_all add: astar_inv_def)
  from frontier [OF dims wf cb g ic k un] obtain w where
    "in_bounds cols rows w" "\<not> closed_at cols s w" "g_at cols s w < INT_MAX" by blast
  from inv_openD [OF op this] em show False by simp
qed

section \<open>The search is correct\<close>

lemma set_directions: "set [NORTH, SOUTH, WEST, EAST] = UNIV"
proof (intro set_eqI iffI UNIV_I)
  fix d :: direction show "d \<in> set [NORTH, SOUTH, WEST, EAST]" by (cases d) simp_all
qed

lemma a_star_step_correct:
  assumes dims: "dims_ok cols rows" and wf: "wf_maze cols rows m"
    and cb: "closed_boundary cols rows m" and pq: "pq_spec P \<alpha>"
    and inv: "astar_inv \<alpha> cols rows m {} s"
    and un: "\<not> closed_at cols s (goal cols rows)"
    and ne: "\<not> pq_empty P (open_set s)"
  shows "(\<exists>r. a_star_step P cols rows s = Inl (Some r) \<and> search_result cols rows m r) \<or>
         (\<exists>s'. a_star_step P cols rows s = Inr s' \<and>
               (astar_inv \<alpha> cols rows m {} s' \<and> \<not> closed_at cols s' (goal cols rows)) \<and>
               astar_measure \<alpha> s' < astar_measure \<alpha> s)"
proof -
  let ?cur = "pq_top P (open_set s)"
  let ?v = "node_pos ?cur"
  let ?i = "index cols (node_x ?cur) (node_y ?cur)"
  let ?s1 = "s\<lparr> open_set := pq_pop P (open_set s) \<rparr>"
  let ?s2 = "s\<lparr> open_set := pq_pop P (open_set s),
                visited_v := (visited_v s)[nat ?i := True] \<rparr>"
  from pq ne have ne': "\<alpha> (open_set s) \<noteq> {#}" by (simp add: pq_spec_def)
  with pq have mem: "?cur \<in># \<alpha> (open_set s)" by (simp add: pq_spec_def)
  from inv have sh: "inv_shape cols rows m s" and q: "inv_queue \<alpha> cols rows m s"
    by (simp_all add: astar_inv_def)
  note vb = inv_queueD(1) [OF q mem]
  have len: "length (visited_v s) = nat (cols * rows)" and mr: "maze_ref s = m"
    using sh by (simp_all add: inv_shape_def)
  have vi: "valid_index (visited_v ?s1) ?i"
    using index_in_range [OF vb] len by (simp add: valid_index_def node_pos_def)
  have cl: "visited_v ?s1 ! nat ?i = closed_at cols s ?v"
    by (simp add: closed_at_def node_pos_def)
  show ?thesis
  proof (cases "closed_at cols s ?v")
    case True
    note p = pop_closed_inv [OF pq inv ne' True]
    have "a_star_step P cols rows s = Inr ?s1"
      using vi cl True by (simp add: a_star_step_def Let_def)
    moreover have "\<not> closed_at cols ?s1 (goal cols rows)" using un by simp
    ultimately show ?thesis using p by blast
  next
    case False
    note c = close_inv [OF dims wf cb pq inv ne' False refl]
    have s2eq: "?s1\<lparr> visited_v := (visited_v ?s1)[nat ?i := True] \<rparr> = ?s2" by simp
    show ?thesis
    proof (cases "node_x ?cur = cols - 1 \<and> node_y ?cur = rows - 1")
      case True
      then have vg: "?v = goal cols rows" by (simp add: node_pos_def goal_def)
      from c(1) have g2: "inv_g cols rows m ?s2" and bk2: "inv_back cols rows m ?s2"
        and ic2: "inv_closed cols rows m ({?v} \<times> UNIV) ?s2"
        by (simp_all add: astar_inv_def)
      note glt = inv_closedD(1) [OF ic2 vb c(3)]
      from reconstruct_path [OF g2 bk2 vb glt, of "[]"] obtain chain where
        r: "reconstruct cols (came_from ?s2) ?v [] = Some chain"
        and l: "length chain = nat (g_at cols ?s2 ?v)"
        and la: "last ((0, 0) # rev chain) = ?v"
        and ps: "path_steps cols rows m ((0, 0) # rev chain)"
        and gm: "map (g_at cols ?s2) ((0, 0) # rev chain) = map int [0..<Suc (nat (g_at cols ?s2 ?v))]"
        by auto
      let ?path = "(0, 0) # rev chain"
      have "a_star_step P cols rows s = Inl (Some (Inr (rev (chain @ [(0, 0)]), maze_ref ?s2)))"
        using vi cl False True r
        by (simp add: a_star_step_def Let_def node_pos_def del: rev_append)
      then have st: "a_star_step P cols rows s = Inl (Some (Inr (?path, m)))"
        by (simp add: mr)
      have w: "walk cols rows m (nat (g_at cols ?s2 ?v)) (0, 0) (goal cols rows)"
        using inv_gD(5) [OF g2 vb glt] vg by simp
      then have re: "reachable cols rows m (0, 0) (goal cols rows)"
        unfolding reachable_def by blast
      have "distinct (map (g_at cols ?s2) ?path)"
        unfolding gm by (simp add: distinct_map del: upt_Suc)
      then have di: "distinct ?path" by (simp only: distinct_map)
      have sd: "shortest_dist cols rows m (0, 0) (goal cols rows) (length ?path - 1)"
        unfolding shortest_dist_def
      proof (intro conjI allI impI)
        show "walk cols rows m (length ?path - 1) (0, 0) (goal cols rows)" using w l by simp
        fix n assume "walk cols rows m n (0, 0) (goal cols rows)"
        then have "g_at cols ?s2 ?v \<le> int n"
          using inv_closedD(2) [OF ic2 vb c(3), of n] vg by simp
        then show "length ?path - 1 \<le> n" using l by simp
      qed
      have "found_path cols rows m ?path"
        unfolding found_path_def using la vg ps di sd by simp
      with re have "search_result cols rows m (Inr (?path, m))"
        by (simp add: search_result_def)
      with st show ?thesis by blast
    next
      case ng: False
      then have vg: "?v \<noteq> goal cols rows" by (auto simp: node_pos_def goal_def)
      have i2: "astar_inv \<alpha> cols rows m ({?v} \<times> set [NORTH, SOUTH, WEST, EAST]) ?s2"
        unfolding set_directions by (rule c(1))
      from expand_inv [OF dims wf cb pq vb i2 c(3,4,5)] obtain s3 where
        e: "expand P cols rows ?cur [NORTH, SOUTH, WEST, EAST] ?s2 = Inr s3"
        and i3: "astar_inv \<alpha> cols rows m {} s3"
        and m3: "astar_measure \<alpha> s3 \<le> astar_measure \<alpha> ?s2"
        and v3: "visited_v s3 = visited_v ?s2" by blast
      have "a_star_step P cols rows s = Inr s3"
        using vi cl False ng e by (simp add: a_star_step_def Let_def)
      moreover have "\<not> closed_at cols s3 (goal cols rows)"
      proof -
        have "closed_at cols s3 (goal cols rows) = closed_at cols ?s2 (goal cols rows)"
          using v3 by (simp add: closed_at_def)
        with c(7) [OF dims_ok_bounds(5) [OF dims]] vg un show ?thesis by simp
      qed
      moreover have "astar_measure \<alpha> s3 < astar_measure \<alpha> s" using m3 c(6) by simp
      ultimately show ?thesis using i3 by blast
    qed
  qed
qed

lemma a_star_correct:
  assumes dims: "dims_ok cols rows" and wf: "wf_maze cols rows m"
    and cb: "closed_boundary cols rows m" and pq: "pq_ok P"
  shows "\<exists>r. a_star P cols rows m = Some r \<and> search_result cols rows m r"
proof -
  from pq obtain \<alpha> where pq: "pq_spec P \<alpha>" by (auto simp: pq_ok_def)
  let ?s0 = "(a_star_init P cols rows m)\<lparr> g_cost_v :=
      (g_cost_v (a_star_init P cols rows m))[nat (index cols 0 0) := 0] \<rparr>"
  let ?I = "\<lambda>s. astar_inv \<alpha> cols rows m {} s \<and> \<not> closed_at cols s (goal cols rows)"
  note b = dims_ok_bounds [OF dims]
  have vi: "valid_index (g_cost_v (a_star_init P cols rows m)) (index cols 0 0)"
    using b(1,2) by (simp add: valid_index_def a_star_init_def)
  have e: "a_star P cols rows m = a_star_loop P cols rows ?s0"
    using vi by (simp add: a_star_def Let_def)
  have I0: "?I ?s0" using astar_init_inv [OF dims pq refl, of m] by simp
  have "\<exists>r. a_star_loop P cols rows ?s0 = Some r \<and> search_result cols rows m r"
  proof (rule a_star_loop_rule [where I = ?I and f = "astar_measure \<alpha>", OF _ _ I0])
    fix s assume "?I s" "\<not> pq_empty P (open_set s)"
    then show "(\<exists>r. a_star_step P cols rows s = Inl (Some r) \<and> search_result cols rows m r) \<or>
         (\<exists>s'. a_star_step P cols rows s = Inr s' \<and> ?I s' \<and>
               astar_measure \<alpha> s' < astar_measure \<alpha> s)"
      using a_star_step_correct [OF dims wf cb pq, of s] by blast
  next
    fix s assume I: "?I s" and em: "pq_empty P (open_set s)"
    then have "\<alpha> (open_set s) = {#}" using pq by (simp add: pq_spec_def)
    with I have "\<not> reachable cols rows m (0, 0) (goal cols rows)"
      using empty_unreachable [OF dims wf cb, of \<alpha> s] by blast
    moreover have "maze_ref s = m" using I by (simp add: astar_inv_def inv_shape_def)
    ultimately show "search_result cols rows m (Inr ([], maze_ref s))"
      by (simp add: search_result_def)
  qed
  with e show ?thesis by simp
qed

section \<open>The search leaves the maze as it is\<close>

lemma expand_maze_ref:
  "expand P cols rows cur ds s = Inr s' \<Longrightarrow> maze_ref s' = maze_ref s"
proof (induction ds arbitrary: s)
  case Nil
  then show ?case by simp
next
  case (Cons d ds)
  show ?case
  proof (cases "is_walkable cols rows (maze_ref s) (node_x cur) (node_y cur) d")
    case (Inl e)
    with Cons.prems show ?thesis by (simp add: Let_def)
  next
    case (Inr w)
    show ?thesis
    proof (cases w)
      case False
      with Inr Cons.prems have "expand P cols rows cur ds s = Inr s'" by (simp add: Let_def)
      then show ?thesis by (rule Cons.IH)
    next
      case True
      let ?i = "index cols (next_x (node_x cur) d) (next_y (node_y cur) d)"
      show ?thesis
      proof (cases "valid_index (g_cost_v s) ?i \<and> g_cost cur + 1 < g_cost_v s ! nat ?i")
        case t: True
        let ?s1 = "s\<lparr> g_cost_v := (g_cost_v s)[nat ?i := g_cost cur + 1],
                    came_from := (came_from s)(?i \<mapsto> (node_x cur, node_y cur)),
                    open_set := pq_push P \<lparr> node_x = next_x (node_x cur) d, node_y = next_y (node_y cur) d,
                       g_cost = g_cost cur + 1,
                       h_cost = heuristic cols rows (next_x (node_x cur) d) (next_y (node_y cur) d) \<rparr>
                      (open_set s) \<rparr>"
        from t True Inr Cons.prems have "expand P cols rows cur ds ?s1 = Inr s'"
          by (simp add: Let_def)
        from Cons.IH [OF this] show ?thesis by simp
      next
        case f: False
        with True Inr Cons.prems have "expand P cols rows cur ds s = Inr s'"
          by (auto simp: Let_def split: if_splits)
        then show ?thesis by (rule Cons.IH)
      qed
    qed
  qed
qed

lemma a_star_step_maze_ref:
  shows "a_star_step P cols rows s = Inr s' \<Longrightarrow> maze_ref s' = maze_ref s"
    and "a_star_step P cols rows s = Inl (Some (Inr (path, m'))) \<Longrightarrow> m' = maze_ref s"
proof -
  let ?cur = "pq_top P (open_set s)"
  let ?i = "index cols (node_x ?cur) (node_y ?cur)"
  let ?s1 = "s\<lparr> open_set := pq_pop P (open_set s) \<rparr>"
  let ?s2 = "?s1\<lparr> visited_v := (visited_v ?s1)[nat ?i := True] \<rparr>"
  let ?goal = "node_x ?cur = cols - 1 \<and> node_y ?cur = rows - 1"
  have unf: "a_star_step P cols rows s =
      (if \<not> valid_index (visited_v ?s1) ?i then Inl (Some (Inl OutOfBounds))
       else if visited_v ?s1 ! nat ?i then Inr ?s1
       else if ?goal then
          Inl (map_option (\<lambda>path. Inr (rev (path @ [(0, 0)]), maze_ref ?s2))
                 (reconstruct cols (came_from ?s2) (node_x ?cur, node_y ?cur) []))
       else case expand P cols rows ?cur [NORTH, SOUTH, WEST, EAST] ?s2 of
              Inl e \<Rightarrow> Inl (Some (Inl e))
            | Inr s3 \<Rightarrow> Inr s3)"
    by (simp only: a_star_step_def Let_def)
  {
    assume a: "a_star_step P cols rows s = Inr s'"
    show "maze_ref s' = maze_ref s"
    proof (cases "visited_v ?s1 ! nat ?i")
      case True
      with a unf have "s' = ?s1" by (simp split: if_splits)
      then show ?thesis by simp
    next
      case False
      with a unf have "expand P cols rows ?cur [NORTH, SOUTH, WEST, EAST] ?s2 = Inr s'"
        by (simp split: if_splits sum.splits)
      from expand_maze_ref [OF this] show ?thesis by simp
    qed
  }
  {
    assume a: "a_star_step P cols rows s = Inl (Some (Inr (path, m')))"
    show "m' = maze_ref s"
    proof (cases "reconstruct cols (came_from ?s2) (node_x ?cur, node_y ?cur) []")
      case None
      with a unf show ?thesis by (simp split: if_splits sum.splits)
    next
      case (Some z)
      with a unf have "Inr (rev (z @ [(0, 0)]), maze_ref ?s2) = (Inr (path, m') :: error + _)"
        by (simp split: if_splits sum.splits)
      then show ?thesis by simp
    qed
  }
qed

lemma a_star_loop_maze_ref:
  assumes "a_star_loop P cols rows s = Some (Inr (path, m'))"
  shows "m' = maze_ref s"
proof -
  let ?R = "\<lambda>(a :: (('q priority_queue \<times> int) \<times> int) \<times> ('q, 'r) astar_state)
              (r :: error + (int \<times> int) list \<times> 'r Maze).
              \<forall>path m'. r = Inr (path, m') \<longrightarrow> m' = maze_ref (snd a)"
  have "?R (((P, cols), rows), s) (Inr (path, m'))"
  proof (rule a_star_loop.raw_induct [where Pa = ?R, OF _ assms])
    fix loop :: "'q priority_queue \<Rightarrow> int \<Rightarrow> int \<Rightarrow> ('q, 'r) astar_state \<Rightarrow>
        (error + (int \<times> int) list \<times> 'r Maze) option"
    fix P cols rows s r
    assume IH: "\<And>P cols rows s y. loop P cols rows s = Some y \<Longrightarrow> ?R (((P, cols), rows), s) y"
      and body: "(if pq_empty P (open_set s) then Some (Inr ([], maze_ref s))
          else case a_star_step P cols rows s of Inl r \<Rightarrow> r
               | Inr s' \<Rightarrow> loop P cols rows s') = Some r"
    show "?R (((P, cols), rows), s) r"
    proof (cases "pq_empty P (open_set s)")
      case True
      with body show ?thesis by auto
    next
      case False
      show ?thesis
      proof (cases "a_star_step P cols rows s")
        case (Inl x)
        with body False a_star_step_maze_ref(2) [of P cols rows s] show ?thesis by auto
      next
        case (Inr s')
        with body False have "loop P cols rows s' = Some r" by simp
        from IH [OF this] a_star_step_maze_ref(1) [OF Inr] show ?thesis by simp
      qed
    qed
  qed
  then show ?thesis by simp
qed

lemma a_star_maze_ref:
  assumes "a_star P cols rows m = Some (Inr (path, m'))"
  shows "m' = m"
proof -
  from assms have "a_star_loop P cols rows ((a_star_init P cols rows m)\<lparr> g_cost_v :=
      (g_cost_v (a_star_init P cols rows m))[nat (index cols 0 0) := 0] \<rparr>) = Some (Inr (path, m'))"
    by (simp add: a_star_def Let_def split: if_splits)
  from a_star_loop_maze_ref [OF this] show ?thesis by (simp add: a_star_init_def)
qed

section \<open>The list queue\<close>

lemma list_min_mem: "list_min a q \<in> set (a # q)"
  by (induction q arbitrary: a) auto

lemma list_min_le: "n \<in> set (a # q) \<Longrightarrow> f_cost (list_min a q) \<le> f_cost n"
proof (induction q arbitrary: a n)
  case Nil
  then show ?case by simp
next
  case (Cons b q)
  let ?c = "if f_cost b < f_cost a then b else a"
  have le: "f_cost (list_min ?c q) \<le> f_cost ?c"
    by (rule Cons.IH) simp
  from Cons.prems consider "n = a" | "n = b" | "n \<in> set q" by auto
  then show ?case
  proof cases
    case 1
    then show ?thesis using le by (auto split: if_splits)
  next
    case 2
    then show ?thesis using le by (auto split: if_splits)
  next
    case 3
    then have "f_cost (list_min ?c q) \<le> f_cost n" by (intro Cons.IH) simp
    then show ?thesis by simp
  qed
qed

lemma pq_ok_list_pq: "pq_ok list_pq"
  unfolding pq_ok_def
proof (rule exI [of _ mset])
  show "pq_spec list_pq mset"
    unfolding pq_spec_def
  proof (intro conjI allI impI)
    fix q :: "Node list" assume "mset q \<noteq> {#}"
    then obtain a r where q: "q = a # r" by (cases q) auto
    show "pq_top list_pq q \<in># mset q"
      using list_min_mem [of a r] by (simp add: list_pq_def q)
    show "\<forall>n \<in># mset q. f_cost (pq_top list_pq q) \<le> f_cost n"
      using list_min_le [of _ a r] by (auto simp: list_pq_def q)
    show "mset (pq_pop list_pq q) = mset q - {#pq_top list_pq q#}"
      by (simp add: list_pq_def)
  qed (simp_all add: list_pq_def)
qed

section \<open>Carved grids\<close>

lemma adjacent_sym:
  assumes wf: "wf_maze cols rows m" and cb: "closed_boundary cols rows m"
    and sym: "wall_symmetric cols rows m" and a: "adjacent cols rows m a b"
  shows "adjacent cols rows m b a"
proof -
  from a have "walk cols rows m (Suc 0) a b" by (auto simp: adjacent_def)
  from walk_reverse [OF wf sym cb this] show ?thesis by (auto simp: adjacent_def)
qed

lemma path_steps_rev:
  assumes sym: "\<And>a b. adjacent cols rows m a b \<Longrightarrow> adjacent cols rows m b a"
  shows "path_steps cols rows m p \<Longrightarrow> path_steps cols rows m (rev p)"
proof (induction p rule: induct_list012)
  case 1
  then show ?case by simp
next
  case (2 a)
  then show ?case by simp
next
  case (3 a b p)
  from 3(3) have ab: "adjacent cols rows m a b" and r: "path_steps cols rows m (b # p)"
    by simp_all
  from 3(2) [OF r] have "path_steps cols rows m (rev (b # p))" .
  moreover have "last (rev (b # p)) = b" by simp
  moreover have "adjacent cols rows m b a" by (rule sym [OF ab])
  ultimately have "path_steps cols rows m (rev (b # p) @ [a])"
    by (simp only: path_steps_snoc [of "rev (b # p)"] rev_is_Nil_conv list.distinct simp_thms)
  then show ?case by simp
qed

lemma all_walls_carved:
  assumes "all_walls cols rows m"
  shows "enclosed_grid cols rows m" and "wall_symmetric cols rows m"
    and "\<not> passable cols rows m c dir"
proof -
  from assms have wf: "wf_maze cols rows m" by (simp add: all_walls_def)
  show "enclosed_grid cols rows m"
    using wf all_walls_cell [OF assms] by (simp add: enclosed_grid_def closed_boundary_def)
  show "wall_symmetric cols rows m"
    using all_walls_cell [OF assms] by (simp add: wall_symmetric_def)
  show "\<not> passable cols rows m c dir"
    using all_walls_cell [OF assms] by (simp add: passable_iff [OF wf])
qed

lemma carve_carved:
  assumes aw: "all_walls cols rows m" and c: "in_bounds cols rows c"
    and n: "in_bounds cols rows (neighbor c dir)"
  shows "enclosed_grid cols rows (carve cols m c dir)"
    and "wall_symmetric cols rows (carve cols m c dir)"
    and "passable cols rows (carve cols m c dir) c dir"
proof -
  from aw have wf: "wf_maze cols rows m" by (simp add: all_walls_def)
  have r: "removed cols (carve cols m c dir) a e \<longleftrightarrow>
      (a = c \<and> e = dir) \<or> (a = neighbor c dir \<and> e = opposite dir)"
    if "in_bounds cols rows a" for a e
    using removed_carve [OF wf c n that] all_walls_cell [OF aw that] by simp
  have "closed_boundary cols rows (carve cols m c dir)"
    unfolding closed_boundary_def
  proof (intro allI impI)
    fix a e assume a: "in_bounds cols rows a \<and> \<not> in_bounds cols rows (neighbor a e)"
    then have "\<not> (a = c \<and> e = dir)" using n by auto
    moreover have "\<not> (a = neighbor c dir \<and> e = opposite dir)" using a c by auto
    ultimately show "\<not> removed cols (carve cols m c dir) a e" using a by (simp add: r)
  qed
  then show "enclosed_grid cols rows (carve cols m c dir)" using wf by (simp add: enclosed_grid_def)
  show "wall_symmetric cols rows (carve cols m c dir)"
    unfolding wall_symmetric_def
  proof (intro allI impI)
    fix a e assume a: "in_bounds cols rows a \<and> in_bounds cols rows (neighbor a e)"
    have 1: "(a = c \<and> e = dir) \<longleftrightarrow> (neighbor a e = neighbor c dir \<and> opposite e = opposite dir)"
      by auto
    have 2: "(a = neighbor c dir \<and> e = opposite dir) \<longleftrightarrow> (neighbor a e = c \<and> opposite e = dir)"
    proof
      assume "a = neighbor c dir \<and> e = opposite dir"
      then show "neighbor a e = c \<and> opposite e = dir" by simp
    next
      assume h: "neighbor a e = c \<and> opposite e = dir"
      then have "neighbor c (opposite e) = a" by auto
      with h show "a = neighbor c dir \<and> e = opposite dir" by (auto simp: opposite_eq_swap)
    qed
    show "removed cols (carve cols m c dir) a e \<longleftrightarrow>
          removed cols (carve cols m c dir) (neighbor a e) (opposite e)"
      using a 1 2 by (simp add: r) blast
  qed
  have "wf_maze cols rows (carve cols m c dir)" using wf by simp
  from passable_iff [OF this] r [OF c] c
  show "passable cols rows (carve cols m c dir) c dir" by simp
qed

lemma closed_boundary_carve:
  assumes wf: "wf_maze cols rows m" and c: "in_bounds cols rows c"
    and n: "in_bounds cols rows (neighbor c dir)" and cb: "closed_boundary cols rows m"
  shows "closed_boundary cols rows (carve cols m c dir)"
  unfolding closed_boundary_def
proof (intro allI impI)
  fix a e assume a: "in_bounds cols rows a \<and> \<not> in_bounds cols rows (neighbor a e)"
  then have "\<not> removed cols m a e" using cb unfolding closed_boundary_def by blast
  moreover have "\<not> (a = c \<and> e = dir)" using a n by auto
  moreover have "\<not> (a = neighbor c dir \<and> e = opposite dir)" using a c by auto
  ultimately show "\<not> removed cols (carve cols m c dir) a e"
    using a by (simp add: removed_carve [OF wf c n])
qed

lemma wall_symmetric_carve:
  assumes wf: "wf_maze cols rows m" and c: "in_bounds cols rows c"
    and n: "in_bounds cols rows (neighbor c dir)" and sym: "wall_symmetric cols rows m"
  shows "wall_symmetric cols rows (carve cols m c dir)"
proof -
  have wf': "wf_maze cols rows (carve cols m c dir)" using wf by simp
  have "wall_symmetric cols rows (mark cols (carve cols m c dir) (neighbor c dir))"
    by (rule wall_symmetric_step [OF wf c n sym])
  then show ?thesis by (simp add: wall_symmetric_mark [OF wf' n])
qed

lemma carved_enclosed:
  assumes "carved cols rows m"
  shows "enclosed_grid cols rows m" and "wall_symmetric cols rows m"
proof -
  from assms have "enclosed_grid cols rows m \<and> wall_symmetric cols rows m"
  proof (induction rule: carved.induct)
    case (carved_walls m)
    then show ?case by (simp add: all_walls_carved)
  next
    case (carved_carve m c dir)
    then show ?case
      by (simp add: enclosed_grid_def closed_boundary_carve wall_symmetric_carve)
  next
    case (carved_mark m c)
    then show ?case
      by (simp add: enclosed_grid_def closed_boundary_mark wall_symmetric_mark)
  next
    case (carved_rng m r)
    then show ?case by (simp add: enclosed_grid_def)
  qed
  then show "enclosed_grid cols rows m" and "wall_symmetric cols rows m" by simp_all
qed

lemma carved_rng_iff: "carved cols rows (m\<lparr> rng := r \<rparr>) = carved cols rows m"
proof
  assume "carved cols rows (m\<lparr> rng := r \<rparr>)"
  then have "carved cols rows (m\<lparr> rng := r \<rparr>\<lparr> rng := rng m \<rparr>)" by (rule carved_rng)
  then show "carved cols rows m" by simp
qed (rule carved_rng)

text \<open>What the generator returns on a fresh grid: a carved grid in which the origin reaches every cell.\<close>

lemma generate_maze_is_carved:
  assumes aw: "all_walls cols rows m" and o: "in_bounds cols rows (x, y)"
    and sh: "shuffle_ok shuffle" and fuel: "nat (cols * rows) \<le> fuel"
  shows "\<exists>m'. generate_maze fuel shuffle cols rows x y m = Inr m' \<and> carved cols rows m'"
proof -
  from aw have wf: "wf_maze cols rows m" by (simp add: all_walls_def)
  have W0: "carved cols rows (mark cols m (x, y))"
    by (intro carved_mark carved_walls aw o)
  have "\<exists>m'. generate_maze fuel shuffle cols rows x y m = Inr m' \<and> wf_maze cols rows m' \<and>
             carved cols rows m'"
  proof (rule generate_maze_walls [where W = "carved cols rows", OF wf o sh fuel W0])
    show "\<And>m r. carved cols rows (m\<lparr> rng := r \<rparr>) = carved cols rows m" by (rule carved_rng_iff)
    show "\<And>m c dir. wf_maze cols rows m \<Longrightarrow> in_bounds cols rows c \<Longrightarrow>
        in_bounds cols rows (neighbor c dir) \<Longrightarrow> carved cols rows m \<Longrightarrow>
        carved cols rows (mark cols (carve cols m c dir) (neighbor c dir))"
      by (intro carved_mark carved_carve)
  qed
  then show ?thesis by blast
qed

lemma generate_maze_carved:
  assumes "fresh_grid cols rows m" and "in_bounds cols rows (x, y)"
    and "shuffle_ok shuffle" and "nat (cols * rows) \<le> fuel"
  shows "\<exists>m'. generate_maze fuel shuffle cols rows x y m = Inr m' \<and> enclosed_grid cols rows m' \<and>
              wall_symmetric cols rows m' \<and>
              (\<forall>c. in_bounds cols rows c \<longrightarrow> reachable cols rows m' (x, y) c)"
proof -
  from generate_maze_total [OF assms] obtain m'
    where g: "generate_maze fuel shuffle cols rows x y m = Inr m'"
      and inv: "gen_inv cols rows (x, y) m'"
      and V: "visited_cells cols rows m' = {c. in_bounds cols rows c}" by blast
  from inv have "enclosed_grid cols rows m'" "wall_symmetric cols rows m'"
    and re: "\<forall>c \<in> visited_cells cols rows m'. reachable cols rows m' (x, y) c"
    by (simp_all add: gen_inv_def enclosed_grid_def)
  moreover from re have "\<forall>c. in_bounds cols rows c \<longrightarrow> reachable cols rows m' (x, y) c"
    unfolding V by simp
  ultimately show ?thesis using g by blast
qed

lemma dims_ok_small: "dims_ok 2 1" "dims_ok 2 2"
  by (simp_all add: dims_ok_def INT_MAX_def)

lemma in_bounds_small:
  "in_bounds 2 1 (0, 0)" "in_bounds 2 1 (1, 0)" "in_bounds 2 2 (0, 0)" "in_bounds 2 2 (1, 0)"
  by (simp_all add: in_bounds_def)

lemma all_walls_Maze_init: "0 \<le> cols \<Longrightarrow> 0 \<le> rows \<Longrightarrow> all_walls cols rows (Maze_init cols rows r)"
  using fresh_grid_Maze_init [of cols rows r] by (simp add: fresh_grid_def)

lemma corridor_carved:
  "enclosed_grid 2 1 corridor" "wall_symmetric 2 1 corridor" "passable 2 1 corridor (0, 0) EAST"
proof -
  have aw: "all_walls 2 1 (Maze_init 2 1 (0::nat))" by (rule all_walls_Maze_init) simp_all
  have n: "in_bounds 2 1 (neighbor (0, 0) EAST)" by (simp add: neighbor_simps in_bounds_def)
  show "enclosed_grid 2 1 corridor" "wall_symmetric 2 1 corridor" "passable 2 1 corridor (0, 0) EAST"
    unfolding corridor_def by (rule carve_carved [OF aw in_bounds_small(1) n])+
qed

lemma corridor_reachable: "walk 2 1 corridor (Suc 0) (0, 0) (goal 2 1)"
  using corridor_carved(3) by (auto simp: goal_def neighbor_simps intro!: exI [of _ EAST])

section \<open>The adjacency test\<close>

text \<open>
  C6. \<open>is_walkable\<close> answers false for every position outside the grid; for a position
  inside the grid of a maze holding one cell per position it answers true exactly when
  the wall of that cell in the given direction is removed; in both cases it returns an
  answer and no error.
\<close>

theorem is_walkable_spec:
  "(x < 0 \<or> y < 0 \<or> x \<ge> cols \<or> y \<ge> rows \<longrightarrow> is_walkable cols rows m x y dir = Inr False) \<and>
   (wf_maze cols rows m \<and> in_bounds cols rows (x, y) \<longrightarrow>
      is_walkable cols rows m x y dir = Inr (\<not> exist (segments (cell_at cols m (x, y)) dir)))"
proof (intro conjI impI)
  assume "x < 0 \<or> y < 0 \<or> x \<ge> cols \<or> y \<ge> rows"
  then show "is_walkable cols rows m x y dir = Inr False"
    by (auto simp: is_walkable_def)
next
  assume a: "wf_maze cols rows m \<and> in_bounds cols rows (x, y)"
  then have "valid_index (maze m) (y * cols + x)"
    using index_in_range [of cols rows "(x, y)"]
    by (simp add: valid_index_def wf_maze_def index_def)
  with a show "is_walkable cols rows m x y dir = Inr (\<not> exist (segments (cell_at cols m (x, y)) dir))"
    by (auto simp: is_walkable_def in_bounds_def cell_at_def index_def)
qed

theorem is_walkable_spec_witness:
  "is_walkable 2 2 one_passage (- 1) 0 EAST = Inr False \<and>
   is_walkable 2 2 one_passage 0 0 EAST = Inr True \<and>
   is_walkable 2 2 one_passage 0 0 SOUTH = Inr False"
proof -
  have out: "(- 1 :: int) < 0 \<or> (0::int) < 0 \<or> (- 1 :: int) \<ge> 2 \<or> (0::int) \<ge> 2" by simp
  have inside: "wf_maze 2 2 one_passage \<and> in_bounds 2 2 (0, 0)" by code_simp
  have e: "\<not> exist (segments (cell_at 2 one_passage (0, 0)) EAST)" by code_simp
  have s: "exist (segments (cell_at 2 one_passage (0, 0)) SOUTH)" by code_simp
  from is_walkable_spec [of "- 1" 0 2 2 one_passage EAST] out
  have "is_walkable 2 2 one_passage (- 1) 0 EAST = Inr False" by blast
  moreover from is_walkable_spec [of 0 0 2 2 one_passage EAST] inside e
  have "is_walkable 2 2 one_passage 0 0 EAST = Inr True" by simp
  moreover from is_walkable_spec [of 0 0 2 2 one_passage SOUTH] inside s
  have "is_walkable 2 2 one_passage 0 0 SOUTH = Inr False" by simp
  ultimately show ?thesis by simp
qed

section \<open>Properties of the generated maze\<close>

text \<open>
  C8. On a grid whose cells are all unvisited, and from any origin inside the grid,
  \<open>generate_maze\<close> returns when it is allowed a recursion depth of at least the number of
  cells; in the grid it returns every cell is visited, and what the run has appended to
  the log of the executions of \<^verbatim>\<open>current.visited = true\<close> holds every cell of the grid
  exactly once.
\<close>

theorem generate_maze_visits_all:
  assumes "all_unvisited cols rows m" and "in_bounds cols rows (x, y)"
    and "shuffle_ok shuffle" and "nat (cols * rows) \<le> fuel"
  shows "\<exists>m' log. generate_maze fuel shuffle cols rows x y m = Inr m' \<and>
              (\<forall>c \<in> set (maze m'). visited c) \<and>
              marks m' = marks m @ log \<and> distinct log \<and>
              set log = {c. in_bounds cols rows c} \<and> length log = length (maze m')"
proof -
  from assms(1) have wf: "wf_maze cols rows m" by (simp add: all_unvisited_def)
  from assms(2) have cols: "0 < cols" and rows: "0 < rows" by (auto simp: in_bounds_def)
  note c = card_unvisited_origin [OF assms(2,4), of m]
  have "\<exists>m'. generate_maze fuel shuffle cols rows x y m = Inr m' \<and>
             visit_inv cols rows (marks m) m' \<and>
             gen_post cols rows (visited_cells cols rows m) m' \<and>
             (x, y) \<in> visited_cells cols rows m'"
  proof (rule generate_maze_spec [where I = "visit_inv cols rows (marks m)",
        OF assms(3) _ _ _ assms(2) wf _ c])
    show "\<And>m'. visit_inv cols rows (marks m) m' \<Longrightarrow> wf_maze cols rows m'"
      by (simp add: visit_inv_def)
    show "\<And>m' r. visit_inv cols rows (marks m) m' \<Longrightarrow>
        visit_inv cols rows (marks m) (m'\<lparr> rng := r \<rparr>)" by simp
    show "\<And>m' c dir. visit_inv cols rows (marks m) m' \<Longrightarrow> c \<in> visited_cells cols rows m' \<Longrightarrow>
        in_bounds cols rows (neighbor c dir) \<Longrightarrow> \<not> visited (cell_at cols m' (neighbor c dir)) \<Longrightarrow>
        visit_inv cols rows (marks m) (mark cols (carve cols m' c dir) (neighbor c dir))"
      by (rule visit_inv_step)
    show "visit_inv cols rows (marks m) (mark cols m (x, y))"
      by (rule visit_inv_init [OF assms(1,2)])
  qed
  then obtain m' where g: "generate_maze fuel shuffle cols rows x y m = Inr m'"
    and inv: "visit_inv cols rows (marks m) m'" and post: "gen_post cols rows {} m'"
    and mem: "(x, y) \<in> visited_cells cols rows m'"
    unfolding all_unvisited_visited_cells [OF assms(1)] by blast
  note V = gen_post_all_visited [OF post mem]
  from inv obtain log where wf': "wf_maze cols rows m'" and ma: "marks m' = marks m @ log"
    and di: "distinct log" and se: "set log = {c. in_bounds cols rows c}"
    by (auto simp: visit_inv_def V)
  have all: "\<forall>c \<in> set (maze m'). visited c"
  proof
    fix c assume "c \<in> set (maze m')"
    from maze_cell_position [OF wf' cols this] obtain p
      where "in_bounds cols rows p" "c = cell_at cols m' p" by blast
    with V show "visited c" by (auto simp: visited_cells_def)
  qed
  have "length log = card {c. in_bounds cols rows c}"
    using distinct_card [OF di] se by simp
  also have "\<dots> = nat cols * nat rows" by (rule card_in_bounds)
  also have "\<dots> = length (maze m')"
    using wf' cols rows by (simp add: wf_maze_def nat_mult_distrib [symmetric] nat_eq_iff)
  finally have "length log = length (maze m')" .
  with g all ma di se show ?thesis by blast
qed

theorem generate_maze_visits_all_witness:
  "\<exists>m' log. generate_maze 4 rotate_shuffle 2 2 0 0 (Maze_init 2 2 0) = Inr m' \<and>
        (\<forall>c \<in> set (maze m'). visited c) \<and>
        marks m' = marks (Maze_init 2 2 (0::nat)) @ log \<and> distinct log \<and>
        set log = {c. in_bounds 2 2 c} \<and> length log = length (maze m')"
proof -
  have "all_unvisited 2 2 (Maze_init 2 2 (0::nat))"
    using fresh_grid_Maze_init [of 2 2 "0::nat"] by (simp add: fresh_grid_def)
  moreover have "in_bounds 2 2 (0, 0)" by (simp add: in_bounds_def)
  moreover have "nat (2 * 2) \<le> (4::nat)" by simp
  ultimately show ?thesis
    using shuffle_ok_rotate generate_maze_visits_all [of 2 2 "Maze_init 2 2 0" 0 0 rotate_shuffle 4] by simp
qed

text \<open>
  C3. On a grid with every wall present, and from any origin inside the grid,
  \<open>generate_maze\<close> returns a grid with symmetric walls: for every cell and direction whose
  neighbour is inside the grid, the wall is removed exactly when the opposite wall of the
  neighbour is removed.
\<close>

theorem generate_maze_wall_symmetric:
  assumes "all_walls cols rows m" and "in_bounds cols rows (x, y)"
    and "shuffle_ok shuffle" and "nat (cols * rows) \<le> fuel"
  shows "\<exists>m'. generate_maze fuel shuffle cols rows x y m = Inr m' \<and>
              (\<forall>c dir. in_bounds cols rows c \<and> in_bounds cols rows (neighbor c dir) \<longrightarrow>
                 (removed cols m' c dir \<longleftrightarrow> removed cols m' (neighbor c dir) (opposite dir)))"
proof -
  from assms(1) have wf: "wf_maze cols rows m" by (simp add: all_walls_def)
  have "wall_symmetric cols rows m"
    using all_walls_cell [OF assms(1)] by (simp add: wall_symmetric_def)
  then have W0: "wall_symmetric cols rows (mark cols m (x, y))"
    by (simp add: wall_symmetric_mark [OF wf assms(2)])
  have "\<exists>m'. generate_maze fuel shuffle cols rows x y m = Inr m' \<and> wf_maze cols rows m' \<and>
             wall_symmetric cols rows m'"
    by (rule generate_maze_walls [where W = "wall_symmetric cols rows", OF wf assms(2,3,4) W0])
       (simp, rule wall_symmetric_step)
  then show ?thesis unfolding wall_symmetric_def by blast
qed

theorem generate_maze_wall_symmetric_witness:
  "\<exists>m'. generate_maze 4 rotate_shuffle 2 2 0 0 (Maze_init 2 2 0) = Inr m' \<and>
        (\<forall>c dir. in_bounds 2 2 c \<and> in_bounds 2 2 (neighbor c dir) \<longrightarrow>
           (removed 2 m' c dir \<longleftrightarrow> removed 2 m' (neighbor c dir) (opposite dir)))"
proof -
  have "all_walls 2 2 (Maze_init 2 2 (0::nat))"
    using fresh_grid_Maze_init [of 2 2 "0::nat"] by (simp add: fresh_grid_def)
  moreover have "in_bounds 2 2 (0, 0)" by (simp add: in_bounds_def)
  moreover have "nat (2 * 2) \<le> (4::nat)" by simp
  ultimately show ?thesis
    using shuffle_ok_rotate generate_maze_wall_symmetric [of 2 2 "Maze_init 2 2 0" 0 0 rotate_shuffle 4] by simp
qed

text \<open>
  C2. On a fresh grid (every wall present, every cell unvisited), and from any origin
  inside the grid, \<open>generate_maze\<close> returns a grid whose passages form a spanning tree:
  there are \<open>cols * rows - 1\<close> removed-wall pairs, every cell is reachable from every
  other, and there is no cycle.
\<close>

theorem generate_maze_spanning_tree:
  assumes "fresh_grid cols rows m" and "in_bounds cols rows (x, y)"
    and "shuffle_ok shuffle" and "nat (cols * rows) \<le> fuel"
  shows "\<exists>m'. generate_maze fuel shuffle cols rows x y m = Inr m' \<and>
              card (passages cols rows m') = nat (cols * rows) - 1 \<and>
              connected_maze cols rows m' \<and> acyclic_maze cols rows m'"
proof -
  from assms(2) have cols: "0 < cols" and rows: "0 < rows" by (auto simp: in_bounds_def)
  from generate_maze_total [OF assms] obtain m'
    where g: "generate_maze fuel shuffle cols rows x y m = Inr m'"
      and inv: "gen_inv cols rows (x, y) m'"
      and V: "visited_cells cols rows m' = {c. in_bounds cols rows c}" by blast
  from inv have wf: "wf_maze cols rows m'" and sym: "wall_symmetric cols rows m'"
    and cb: "closed_boundary cols rows m'"
    and re: "\<forall>c \<in> visited_cells cols rows m'. reachable cols rows m' (x, y) c"
    and ac: "acyclic_maze cols rows m'"
    and cd: "Suc (card (passages cols rows m')) = card (visited_cells cols rows m')"
    by (simp_all add: gen_inv_def)
  have "card (visited_cells cols rows m') = nat (cols * rows)"
    unfolding V card_in_bounds using cols rows by (simp add: nat_mult_distrib)
  with cd have 1: "card (passages cols rows m') = nat (cols * rows) - 1" by simp
  have 2: "connected_maze cols rows m'"
    unfolding connected_maze_def
  proof (intro allI impI)
    fix a b assume ab: "in_bounds cols rows a \<and> in_bounds cols rows b"
    then have "a \<in> visited_cells cols rows m'" "b \<in> visited_cells cols rows m'"
      unfolding V by simp_all
    with re have ra: "reachable cols rows m' (x, y) a" and rb: "reachable cols rows m' (x, y) b"
      by blast+
    from ra have "reachable cols rows m' a (x, y)"
      unfolding reachable_def using walk_reverse [OF wf sym cb] by blast
    then show "reachable cols rows m' a b" using rb by (rule reachable_trans)
  qed
  from g 1 2 ac show ?thesis by blast
qed

theorem generate_maze_spanning_tree_witness:
  "\<exists>m'. generate_maze 4 rotate_shuffle 2 2 0 0 (Maze_init 2 2 0) = Inr m' \<and>
        card (passages 2 2 m') = nat (2 * 2) - 1 \<and>
        connected_maze 2 2 m' \<and> acyclic_maze 2 2 m'"
proof -
  have "fresh_grid 2 2 (Maze_init 2 2 (0::nat))"
    by (rule fresh_grid_Maze_init) simp_all
  moreover have "in_bounds 2 2 (0, 0)" by (simp add: in_bounds_def)
  moreover have "nat (2 * 2) \<le> (4::nat)" by simp
  ultimately show ?thesis
    using shuffle_ok_rotate generate_maze_spanning_tree [of 2 2 "Maze_init 2 2 0" 0 0 rotate_shuffle 4] by simp
qed

section \<open>Properties of the search\<close>

text \<open>
  C7. The heuristic of the search is the Manhattan distance to the goal, and it is
  admissible: it is at most the number of steps of any walk from the cell to the goal, so
  at most the shortest-path distance when the goal is reachable.
\<close>

theorem heuristic_admissible:
  "heuristic cols rows x y = \<bar>(cols - 1) - x\<bar> + \<bar>(rows - 1) - y\<bar> \<and>
   (\<forall>n. walk cols rows m n (x, y) (goal cols rows) \<longrightarrow> heuristic cols rows x y \<le> int n) \<and>
   (\<forall>k. shortest_dist cols rows m (x, y) (goal cols rows) k \<longrightarrow> heuristic cols rows x y \<le> int k)"
proof -
  have g: "heuristic cols rows (fst (goal cols rows)) (snd (goal cols rows)) = 0"
    by (simp add: heuristic_def goal_def)
  have w: "heuristic cols rows x y \<le> int n" if "walk cols rows m n (x, y) (goal cols rows)" for n
    using heuristic_walk [OF that] g by simp
  then have "heuristic cols rows x y \<le> int k"
    if "shortest_dist cols rows m (x, y) (goal cols rows) k" for k
    using that by (simp add: shortest_dist_def)
  with w show ?thesis by (simp add: heuristic_def)
qed

theorem heuristic_admissible_witness:
  "shortest_dist 2 1 corridor (0, 0) (goal 2 1) 1 \<and> heuristic 2 1 0 0 \<le> int 1 \<and>
   heuristic 2 1 0 0 = \<bar>(2 - 1) - 0\<bar> + \<bar>(1 - 1) - 0\<bar>"
proof -
  have "walk 2 1 corridor n (0, 0) (goal 2 1) \<longrightarrow> 1 \<le> n" for n
    by (cases n) (simp_all add: goal_def)
  with corridor_reachable have sd: "shortest_dist 2 1 corridor (0, 0) (goal 2 1) 1"
    by (simp add: shortest_dist_def)
  with heuristic_admissible [of 2 1 0 0 corridor] show ?thesis by blast
qed

text \<open>
  C9. The search does not modify the maze: whenever \<open>a_star\<close> returns, the maze its
  reference points to is the maze it was given, with every cell as it was.
\<close>

theorem a_star_maze_unchanged:
  "a_star P cols rows m = Some (Inr (path, m')) \<Longrightarrow> m' = m"
  by (rule a_star_maze_ref)

theorem a_star_maze_unchanged_witness:
  "\<exists>path m'. a_star list_pq 2 1 corridor = Some (Inr (path, m')) \<and> m' = corridor"
proof -
  from corridor_carved(1) have "wf_maze 2 1 corridor" "closed_boundary 2 1 corridor"
    by (simp_all add: enclosed_grid_def)
  from a_star_correct [OF dims_ok_small(1) this pq_ok_list_pq]
  obtain path m' where r: "a_star list_pq 2 1 corridor = Some (Inr (path, m'))"
    by (auto simp: search_result_def)
  from a_star_maze_unchanged [OF r] r show ?thesis by blast
qed

text \<open>
  C1. On a carved grid with symmetric walls in which the goal is reachable from the
  start, \<open>a_star\<close> returns a path whose number of steps is the shortest-path distance from
  the start to the goal. This holds for every priority queue that meets the contract,
  whichever of several smallest nodes it yields.
\<close>

theorem a_star_optimal:
  assumes "dims_ok cols rows" and "pq_ok P"
    and "carved cols rows m" and "wall_symmetric cols rows m"
    and "reachable cols rows m (0, 0) (goal cols rows)"
  shows "\<exists>path k. a_star P cols rows m = Some (Inr (path, m)) \<and> length path = Suc k \<and>
                  shortest_dist cols rows m (0, 0) (goal cols rows) k"
proof -
  from carved_enclosed(1) [OF assms(3)]
  have wf: "wf_maze cols rows m" and cb: "closed_boundary cols rows m"
    by (simp_all add: enclosed_grid_def)
  from a_star_correct [OF assms(1) wf cb assms(2)] assms(5)
  obtain path where r: "a_star P cols rows m = Some (Inr (path, m))"
    and f: "found_path cols rows m path"
    by (auto simp: search_result_def)
  from f have "path \<noteq> []"
    and "shortest_dist cols rows m (0, 0) (goal cols rows) (length path - 1)"
    by (simp_all add: found_path_def)
  moreover from this(1) have "length path = Suc (length path - 1)" by simp
  ultimately show ?thesis using r by blast
qed

theorem a_star_optimal_witness:
  "\<exists>m'. generate_maze 4 rotate_shuffle 2 2 0 0 (Maze_init 2 2 0) = Inr m' \<and>
     (\<exists>path k. a_star list_pq 2 2 m' = Some (Inr (path, m')) \<and> length path = Suc k \<and>
                shortest_dist 2 2 m' (0, 0) (goal 2 2) k)"
proof -
  have fr: "fresh_grid 2 2 (Maze_init 2 2 (0::nat))" by (rule fresh_grid_Maze_init) simp_all
  then have aw: "all_walls 2 2 (Maze_init 2 2 (0::nat))" by (simp add: fresh_grid_def)
  from generate_maze_is_carved [OF aw in_bounds_small(3) shuffle_ok_rotate, of 4]
  obtain m' where g: "generate_maze 4 rotate_shuffle 2 2 0 0 (Maze_init 2 2 0) = Inr m'"
    and c: "carved 2 2 m'" by auto
  from generate_maze_carved [OF fr in_bounds_small(3) shuffle_ok_rotate, of 4] g
  have s: "wall_symmetric 2 2 m'"
    and r: "\<forall>c. in_bounds 2 2 c \<longrightarrow> reachable 2 2 m' (0, 0) c" by auto
  have "in_bounds 2 2 (goal 2 2)" by (simp add: in_bounds_def goal_def)
  with r have "reachable 2 2 m' (0, 0) (goal 2 2)" by blast
  from a_star_optimal [OF dims_ok_small(2) pq_ok_list_pq c s this] g show ?thesis by blast
qed

text \<open>
  C4, as the code has it. On an enclosed grid, a non-empty path returned by \<open>a_star\<close> starts
  at \<open>(0,0)\<close>, ends at the goal, holds no cell twice, and each of its cells is passable to
  the next; when the walls of the grid are symmetric, each is passable from the next as
  well. Without symmetric walls the way back may be closed: on the grid \<open>one_way\<close> the search
  returns the path from \<open>(0,0)\<close> to \<open>(1,0)\<close>, and \<open>(1,0)\<close> has its west wall.
\<close>

theorem a_star_path_valid:
  assumes "dims_ok cols rows" and "pq_ok P" and "enclosed_grid cols rows m"
    and "a_star P cols rows m = Some (Inr (path, m'))" and "path \<noteq> []"
  shows "hd path = (0, 0) \<and> last path = goal cols rows \<and> distinct path \<and>
         path_steps cols rows m path \<and>
         (wall_symmetric cols rows m \<longrightarrow> path_steps cols rows m (rev path))"
proof -
  from assms(3) have wf: "wf_maze cols rows m" and cb: "closed_boundary cols rows m"
    by (simp_all add: enclosed_grid_def)
  from a_star_correct [OF assms(1) wf cb assms(2)] assms(4,5)
  have f: "found_path cols rows m path"
    by (auto simp: search_result_def split: if_splits)
  then have ps: "path_steps cols rows m path" by (simp add: found_path_def)
  have "path_steps cols rows m (rev path)" if "wall_symmetric cols rows m"
    using adjacent_sym [OF wf cb that] ps by (rule path_steps_rev)
  with f show ?thesis by (simp add: found_path_def)
qed

theorem a_star_path_valid_witness:
  "\<exists>path. a_star list_pq 2 1 corridor = Some (Inr (path, corridor)) \<and> path \<noteq> [] \<and>
     hd path = (0, 0) \<and> last path = goal 2 1 \<and> distinct path \<and>
     path_steps 2 1 corridor path \<and> path_steps 2 1 corridor (rev path)"
proof -
  from corridor_carved(1) have wf: "wf_maze 2 1 corridor" and cb: "closed_boundary 2 1 corridor"
    by (simp_all add: enclosed_grid_def)
  have "reachable 2 1 corridor (0, 0) (goal 2 1)"
    unfolding reachable_def using corridor_reachable by blast
  with a_star_correct [OF dims_ok_small(1) wf cb pq_ok_list_pq]
  obtain path where r: "a_star list_pq 2 1 corridor = Some (Inr (path, corridor))"
    and ne: "path \<noteq> []"
    by (auto simp: search_result_def found_path_def)
  from a_star_path_valid [OF dims_ok_small(1) pq_ok_list_pq corridor_carved(1) r ne]
    corridor_carved(2) r ne show ?thesis by blast
qed

theorem a_star_one_way_counterexample:
  "map_option (map_sum id fst) (a_star list_pq 2 1 one_way) = Some (Inr [(0, 0), (1, 0)]) \<and>
   is_walkable 2 1 one_way 0 0 EAST = Inr True \<and>
   is_walkable 2 1 one_way 1 0 WEST = Inr False"
  by code_simp

text \<open>
  C5, as the code has it. On an enclosed grid in which the goal is not reachable from the
  start, \<open>a_star\<close> returns the empty path. On a grid with a wall of the outer boundary
  removed the search reads its vectors outside their bounds: on \<open>north_breach\<close>, where
  the goal is not reachable, it indexes \<^verbatim>\<open>g_cost\<close> at \<open>-2\<close>.
\<close>

theorem a_star_unreachable:
  assumes "dims_ok cols rows" and "pq_ok P" and "enclosed_grid cols rows m"
    and "\<not> reachable cols rows m (0, 0) (goal cols rows)"
  shows "a_star P cols rows m = Some (Inr ([], m))"
proof -
  from assms(3) have wf: "wf_maze cols rows m" and cb: "closed_boundary cols rows m"
    by (simp_all add: enclosed_grid_def)
  from a_star_correct [OF assms(1) wf cb assms(2)] assms(4)
  show ?thesis by (auto simp: search_result_def)
qed

theorem a_star_unreachable_witness:
  "\<not> reachable 2 1 (Maze_init 2 1 (0::nat)) (0, 0) (goal 2 1) \<and>
   a_star list_pq 2 1 (Maze_init 2 1 (0::nat)) = Some (Inr ([], Maze_init 2 1 0))"
proof -
  have aw: "all_walls 2 1 (Maze_init 2 1 (0::nat))" by (rule all_walls_Maze_init) simp_all
  have "\<not> walk 2 1 (Maze_init 2 1 (0::nat)) n (0, 0) (goal 2 1)" for n
    using all_walls_carved(3) [OF aw] by (cases n) (simp_all add: goal_def)
  then have nr: "\<not> reachable 2 1 (Maze_init 2 1 (0::nat)) (0, 0) (goal 2 1)"
    by (simp add: reachable_def)
  from a_star_unreachable [OF dims_ok_small(1) pq_ok_list_pq all_walls_carved(1) [OF aw] nr] nr
  show ?thesis by simp
qed

lemma north_breach_unreachable: "\<not> reachable 2 1 north_breach (0, 0) (goal 2 1)"
proof -
  have "\<not> passable 2 1 north_breach (0, 0) SOUTH" "\<not> passable 2 1 north_breach (0, 0) WEST"
    "\<not> passable 2 1 north_breach (0, 0) EAST" by code_simp+
  then have p: "passable 2 1 north_breach (0, 0) dir \<Longrightarrow> dir = NORTH" for dir
    by (cases dir) simp_all
  have o: "\<not> passable 2 1 north_breach (0, - 1) dir" for dir
    by (simp add: passable_def is_walkable_def)
  have "\<not> walk 2 1 north_breach n (0, 0) (goal 2 1)" for n
  proof (cases n)
    case 0
    then show ?thesis by (simp add: goal_def)
  next
    case (Suc k)
    have "\<not> walk 2 1 north_breach k (neighbor (0, 0) dir) (goal 2 1)"
      if "passable 2 1 north_breach (0, 0) dir" for dir
      using p [OF that] o by (cases k) (simp_all add: neighbor_simps goal_def)
    with Suc show ?thesis by auto
  qed
  then show ?thesis by (simp add: reachable_def)
qed

theorem a_star_breach_counterexample:
  "\<not> reachable 2 1 north_breach (0, 0) (goal 2 1) \<and>
   map_option (map_sum id fst) (a_star list_pq 2 1 north_breach) = Some (Inl OutOfBounds)"
proof -
  have "map_option (map_sum id fst) (a_star list_pq 2 1 north_breach) = Some (Inl OutOfBounds)"
    by code_simp
  with north_breach_unreachable show ?thesis by simp
qed

text \<open>
  C10. On a grid with the walls of its outer boundary present, \<open>generate_maze\<close> returns a
  grid with the walls of its outer boundary present. There, a direction that
  \<open>is_walkable\<close> accepts at a cell of the grid leads to a cell of the grid, and \<open>a_star\<close>
  returns without reading or writing a vector outside its bounds.
\<close>

theorem generate_maze_closed_boundary:
  assumes "dims_ok cols rows" and "pq_ok P"
    and "wf_maze cols rows m" and "closed_boundary cols rows m"
    and "in_bounds cols rows (x, y)" and "shuffle_ok shuffle" and "nat (cols * rows) \<le> fuel"
  shows "\<exists>m'. generate_maze fuel shuffle cols rows x y m = Inr m' \<and>
           closed_boundary cols rows m' \<and>
           (\<forall>c dir. in_bounds cols rows c \<and>
                     is_walkable cols rows m' (fst c) (snd c) dir = Inr True \<longrightarrow>
                     in_bounds cols rows (neighbor c dir)) \<and>
           (\<exists>path. a_star P cols rows m' = Some (Inr (path, m')))"
proof -
  have W0: "closed_boundary cols rows (mark cols m (x, y))"
    using assms(4) by (simp add: closed_boundary_mark [OF assms(3,5)])
  have "\<exists>m'. generate_maze fuel shuffle cols rows x y m = Inr m' \<and> wf_maze cols rows m' \<and>
             closed_boundary cols rows m'"
    by (rule generate_maze_walls [where W = "closed_boundary cols rows", OF assms(3,5,6,7) W0])
       (simp, rule closed_boundary_step)
  then obtain m' where g: "generate_maze fuel shuffle cols rows x y m = Inr m'"
    and wf: "wf_maze cols rows m'" and cb: "closed_boundary cols rows m'" by blast
  have nb: "in_bounds cols rows (neighbor c dir)"
    if "in_bounds cols rows c \<and> is_walkable cols rows m' (fst c) (snd c) dir = Inr True" for c dir
  proof -
    from that have "passable cols rows m' c dir" by (simp add: passable_def)
    then have "adjacent cols rows m' c (neighbor c dir)" by (auto simp: adjacent_def)
    then show ?thesis by (rule adjacent_in_bounds(2) [OF wf cb])
  qed
  from a_star_correct [OF assms(1) wf cb assms(2)]
  have "\<exists>path. a_star P cols rows m' = Some (Inr (path, m'))"
    by (auto simp: search_result_def)
  with g cb nb show ?thesis by blast
qed

theorem generate_maze_closed_boundary_witness:
  "\<exists>m'. generate_maze 4 rotate_shuffle 2 2 0 0 (Maze_init 2 2 0) = Inr m' \<and>
     closed_boundary 2 2 m' \<and>
     (\<forall>c dir. in_bounds 2 2 c \<and> is_walkable 2 2 m' (fst c) (snd c) dir = Inr True \<longrightarrow>
               in_bounds 2 2 (neighbor c dir)) \<and>
     (\<exists>path. a_star list_pq 2 2 m' = Some (Inr (path, m')))"
proof -
  have aw: "all_walls 2 2 (Maze_init 2 2 (0::nat))" by (rule all_walls_Maze_init) simp_all
  from all_walls_carved(1) [OF aw]
  have "wf_maze 2 2 (Maze_init 2 2 (0::nat))" "closed_boundary 2 2 (Maze_init 2 2 (0::nat))"
    by (simp_all add: enclosed_grid_def)
  from generate_maze_closed_boundary [OF dims_ok_small(2) pq_ok_list_pq this in_bounds_small(3)
      shuffle_ok_rotate, of 4]
  show ?thesis by simp
qed

end
